theory Spec2Isabelle
  imports Main "HOL-Library.Word"
begin

unbundle bit_operations_syntax

section \<open>The Cadence MACB/GEM driver: descriptor rings of drivers/net/macb.c\<close>

text \<open>
  The development embeds the transmit path (\<^verbatim>\<open>_macb_send\<close>), the receive path
  (\<^verbatim>\<open>_macb_recv\<close>), the deferred release of receive descriptors
  (\<^verbatim>\<open>reclaim_rx_buffer\<close>, \<^verbatim>\<open>reclaim_rx_buffers\<close>) and the multi-queue set-up
  (\<^verbatim>\<open>gmac_init_multi_queues\<close>) of \<^verbatim>\<open>drivers/net/macb.c\<close>.

  C types: \<^verbatim>\<open>u32\<close> is a 32-bit word, \<^verbatim>\<open>unsigned long\<close> a 64-bit word (the board is
  arm64). Ring indices are \<^verbatim>\<open>unsigned int\<close> in C; they are natural numbers here, and
  every place where the C arithmetic on them can wrap is written with \<open>mod 2 ^ 32\<close>.
\<close>

type_synonym u32 = "32 word"
type_synonym ulong = "64 word"
type_synonym byte = "8 word"

subsection \<open>Constants of the source file\<close>

definition MACB_RX_RING_SIZE :: nat where "MACB_RX_RING_SIZE = 32"
definition MACB_TX_RING_SIZE :: nat where "MACB_TX_RING_SIZE = 16"
definition MACB_TX_TIMEOUT :: nat where "MACB_TX_TIMEOUT = 1000"

definition HW_DMA_CAP_32B :: u32 where "HW_DMA_CAP_32B = 0"
definition HW_DMA_CAP_64B :: u32 where "HW_DMA_CAP_64B = 1"

definition DMA_DESC_SIZE :: nat where "DMA_DESC_SIZE = 16"
definition DMA_DESC_BYTES :: "nat \<Rightarrow> nat" where "DMA_DESC_BYTES n = n * DMA_DESC_SIZE"
definition MACB_TX_DMA_DESC_SIZE :: nat where
  "MACB_TX_DMA_DESC_SIZE = DMA_DESC_BYTES MACB_TX_RING_SIZE"
definition MACB_RX_DMA_DESC_SIZE :: nat where
  "MACB_RX_DMA_DESC_SIZE = DMA_DESC_BYTES MACB_RX_RING_SIZE"
definition MACB_TX_DUMMY_DMA_DESC_SIZE :: nat where
  "MACB_TX_DUMMY_DMA_DESC_SIZE = DMA_DESC_BYTES 1"

definition RXBUF_FRMLEN_MASK :: u32 where "RXBUF_FRMLEN_MASK = 0x00000fff"
definition TXBUF_FRMLEN_MASK :: u32 where "TXBUF_FRMLEN_MASK = 0x000007ff"

text \<open>\<^verbatim>\<open>struct macb_dma_desc\<close>: two 32-bit words, eight bytes.\<close>

record macb_dma_desc =
  addr :: u32
  ctrl :: u32

definition sizeof_macb_dma_desc :: nat where "sizeof_macb_dma_desc = 8"

subsection \<open>What the file takes from headers that are not part of the sources\<close>

text \<open>
  \<^verbatim>\<open>macb.h\<close> (the bit masks \<^verbatim>\<open>MACB_BIT(...)\<close>, \<^verbatim>\<open>MACB_MAX_QUEUES\<close>,
  \<^verbatim>\<open>MACB_SEGMENTS_NUM\<close>, \<^verbatim>\<open>MACB_LOWER_SEGMENTS_NUM\<close>) and the platform headers
  (\<^verbatim>\<open>ARCH_DMA_MINALIGN\<close>, \<^verbatim>\<open>PKTALIGN\<close>, the bus address \<^verbatim>\<open>dma_map_single\<close>
  returns) are not among the sources. Their values are parameters of the model: every
  function takes a \<open>platform\<close>, and a theorem names the properties of it that it needs.
\<close>

record platform =
  BIT_RX_USED :: u32
  BIT_RX_WRAP :: u32
  BIT_RX_SOF :: u32
  BIT_RX_EOF :: u32
  BIT_TX_LAST :: u32
  BIT_TX_WRAP :: u32
  BIT_TX_USED :: u32
  BIT_TX_UNDERRUN :: u32
  BIT_TX_BUF_EXHAUSTED :: u32
  BIT_TE :: u32
  BIT_RE :: u32
  BIT_TSTART :: u32
  ARCH_DMA_MINALIGN :: nat
  PKTALIGN :: nat
  MACB_MAX_QUEUES :: nat
  MACB_SEGMENTS_NUM :: nat
  MACB_LOWER_SEGMENTS_NUM :: nat
  dma_addr_of :: "ulong \<Rightarrow> ulong"

definition DESC_PER_CACHELINE_32 :: "platform \<Rightarrow> nat" where
  "DESC_PER_CACHELINE_32 p = ARCH_DMA_MINALIGN p div sizeof_macb_dma_desc"

definition DESC_PER_CACHELINE_64 :: "platform \<Rightarrow> nat" where
  "DESC_PER_CACHELINE_64 p = ARCH_DMA_MINALIGN p div DMA_DESC_SIZE"

text \<open>
  Modelled from the spec: the macro \<^verbatim>\<open>ALIGN\<close> of the kernel headers is not among the
  sources. "Range boundaries are rounded up to the platform DMA alignment": the least
  multiple of \<open>a\<close> that is not below \<open>x\<close>.
\<close>

definition ALIGN :: "nat \<Rightarrow> nat \<Rightarrow> nat" where
  "ALIGN x a = ((x + a - 1) div a) * a"

definition lower_32_bits :: "ulong \<Rightarrow> u32" where
  "lower_32_bits a = ucast a"

definition upper_32_bits :: "ulong \<Rightarrow> u32" where
  "upper_32_bits a = ucast (drop_bit 32 a)"

subsection \<open>Device state\<close>

text \<open>\<^verbatim>\<open>struct macb_config\<close>, without the clock callback and the USRIO table.\<close>

record macb_config =
  dma_burst_length :: u32
  hw_dma_cap :: u32
  caps :: u32
  queue_mask :: ulong
  disable_queues_at_halt :: bool
  disable_queues_at_init :: bool
  allocate_segments_equally :: bool
  disable_clocks_at_stop :: bool

text \<open>The registers the modelled functions read and write; the argument is the hardware queue.\<close>

datatype reg = NCR | DCFG6 | TBQP nat | RBQP nat | TBQPH nat | RBQPH nat
  | SEG_ALLOC_LOWER | SEG_ALLOC_UPPER

text \<open>
  What the driver does to the world beside its own memory: cache maintenance with its
  address range, DMA mapping, delays and console output, in program order. A store that
  releases a receive descriptor is recorded with the index of the descriptor.
\<close>

datatype event =
    Invalidate_dcache_range nat nat
  | Flush_dcache_range nat nat
  | Dma_map_single ulong int
  | Dma_unmap_single ulong int
  | Udelay nat
  | Printf string
  | Clear_rx_used nat

text \<open>
  \<^verbatim>\<open>struct macb_device\<close> together with the memory its pointers refer to. The
  descriptor rings are stores indexed by slot number (a slot is one
  \<^verbatim>\<open>struct macb_dma_desc\<close>; with 64-bit addressing a descriptor takes two slots, the
  second one holding \<^verbatim>\<open>addrh\<close> in the place of \<open>addr\<close>). \<open>rx_buffer\<close> is the buffer
  pool, \<open>net_rx_packets0\<close> the network core's buffer \<^verbatim>\<open>net_rx_packets[0]\<close>, \<open>regs\<close>
  the register file, \<open>trace\<close> the events so far.
\<close>

record macb_device =
  config :: macb_config
  rx_tail :: nat
  tx_head :: nat
  tx_tail :: nat
  next_rx_tail :: nat
  wrapped :: bool
  rx_buffer :: "byte list"
  rx_ring :: "nat \<Rightarrow> macb_dma_desc"
  tx_ring :: "nat \<Rightarrow> macb_dma_desc"
  rx_buffer_size :: nat
  rx_buffer_dma :: nat
  rx_ring_dma :: nat
  tx_ring_dma :: nat
  dummy_desc :: macb_dma_desc
  dummy_desc_dma :: ulong
  regs :: "reg \<Rightarrow> u32"
  net_rx_packets0 :: "byte list"
  trace :: "event list"

definition emit :: "event \<Rightarrow> macb_device \<Rightarrow> macb_device" where
  "emit e s = s\<lparr>trace := trace s @ [e]\<rparr>"

definition macb_writel :: "reg \<Rightarrow> u32 \<Rightarrow> macb_device \<Rightarrow> macb_device" where
  "macb_writel r v s = s\<lparr>regs := (regs s)(r := v)\<rparr>"

definition dma_64b :: "macb_device \<Rightarrow> bool" where
  "dma_64b s = (hw_dma_cap (config s) AND HW_DMA_CAP_64B \<noteq> 0)"

subsection \<open>Cache maintenance of the rings\<close>

definition macb_invalidate_ring_desc :: "platform \<Rightarrow> bool \<Rightarrow> macb_device \<Rightarrow> macb_device" where
  "macb_invalidate_ring_desc p rx s =
     (if rx
      then emit (Invalidate_dcache_range (rx_ring_dma s)
                   (ALIGN (rx_ring_dma s + MACB_RX_DMA_DESC_SIZE) (PKTALIGN p))) s
      else emit (Invalidate_dcache_range (tx_ring_dma s)
                   (ALIGN (tx_ring_dma s + MACB_TX_DMA_DESC_SIZE) (PKTALIGN p))) s)"

definition macb_flush_ring_desc :: "platform \<Rightarrow> bool \<Rightarrow> macb_device \<Rightarrow> macb_device" where
  "macb_flush_ring_desc p rx s =
     (if rx
      then emit (Flush_dcache_range (rx_ring_dma s)
                   (rx_ring_dma s + ALIGN MACB_RX_DMA_DESC_SIZE (PKTALIGN p))) s
      else emit (Flush_dcache_range (tx_ring_dma s)
                   (tx_ring_dma s + ALIGN MACB_TX_DMA_DESC_SIZE (PKTALIGN p))) s)"

definition macb_invalidate_rx_buffer :: "platform \<Rightarrow> macb_device \<Rightarrow> macb_device" where
  "macb_invalidate_rx_buffer p s =
     emit (Invalidate_dcache_range (rx_buffer_dma s)
             (rx_buffer_dma s + ALIGN (rx_buffer_size s * MACB_RX_RING_SIZE) (PKTALIGN p))) s"

subsection \<open>Transmit: \<^verbatim>\<open>macb_set_addr\<close> and \<^verbatim>\<open>_macb_send\<close>\<close>

text \<open>
  \<^verbatim>\<open>macb_64b_desc(desc)\<close> is the memory right after \<open>desc\<close>, that is the next slot, and
  \<^verbatim>\<open>addrh\<close> is its first word.
\<close>

definition macb_set_addr ::
  "bool \<Rightarrow> (nat \<Rightarrow> macb_dma_desc) \<Rightarrow> nat \<Rightarrow> ulong \<Rightarrow> (nat \<Rightarrow> macb_dma_desc)" where
  "macb_set_addr cap64 ring i a =
     (let ring1 = (if cap64
                   then ring(Suc i := (ring (Suc i))\<lparr>addr := upper_32_bits a\<rparr>)
                   else ring)
      in ring1(i := (ring1 i)\<lparr>addr := lower_32_bits a\<rparr>))"

text \<open>
  Lines 378 to 400 of \<^verbatim>\<open>_macb_send\<close>: the descriptor is filled at the producer index,
  flushed, and the transmitter is started. The result is the mapped address, the slot of
  the descriptor (the local \<^verbatim>\<open>tx_head\<close>) and the control word written.
\<close>

definition macb_send_submit ::
  "platform \<Rightarrow> macb_device \<Rightarrow> ulong \<Rightarrow> int \<Rightarrow> ulong \<times> nat \<times> u32 \<times> macb_device" where
  "macb_send_submit p s packet len =
     (let tx_head0 = tx_head s;
          paddr = dma_addr_of p packet;
          s1 = emit (Dma_map_single packet len) s;
          ctrl0 = (word_of_int len AND TXBUF_FRMLEN_MASK) OR BIT_TX_LAST p;
          ctrl1 = (if tx_head0 = MACB_TX_RING_SIZE - 1 then ctrl0 OR BIT_TX_WRAP p else ctrl0);
          s2 = (if tx_head0 = MACB_TX_RING_SIZE - 1
                then s1\<lparr>tx_head := 0\<rparr>
                else s1\<lparr>tx_head := (tx_head s1 + 1) mod 2 ^ 32\<rparr>);
          slot = (if dma_64b s2 then (tx_head0 * 2) mod 2 ^ 32 else tx_head0);
          s3 = s2\<lparr>tx_ring := (tx_ring s2)(slot := (tx_ring s2 slot)\<lparr>ctrl := ctrl1\<rparr>)\<rparr>;
          s4 = s3\<lparr>tx_ring := macb_set_addr (dma_64b s3) (tx_ring s3) slot paddr\<rparr>;
          s5 = macb_flush_ring_desc p False s4;
          s6 = macb_writel NCR (BIT_TE p OR BIT_RE p OR BIT_TSTART p) s5
      in (paddr, slot, ctrl1, s6))"

text \<open>
  The polling loop, lines 406 to 413. The controller owns the descriptor while the loop
  runs: \<open>hw i\<close> is the control word that the descriptor holds in memory when the driver
  reads it in round \<open>i\<close>, after invalidating the ring. The result is the final \<open>i\<close> and
  \<open>ctrl\<close> of the C function.
\<close>

function tx_poll ::
  "platform \<Rightarrow> (nat \<Rightarrow> u32) \<Rightarrow> nat \<Rightarrow> nat \<Rightarrow> u32 \<Rightarrow> macb_device \<Rightarrow> nat \<times> u32 \<times> macb_device" where
  "tx_poll p hw slot i c s =
     (if i \<le> MACB_TX_TIMEOUT
      then (let s1 = macb_invalidate_ring_desc p False s;
                s2 = s1\<lparr>tx_ring := (tx_ring s1)(slot := (tx_ring s1 slot)\<lparr>ctrl := hw i\<rparr>)\<rparr>;
                c1 = ctrl (tx_ring s2 slot)
            in if c1 AND BIT_TX_USED p \<noteq> 0 then (i, c1, s2)
               else tx_poll p hw slot (i + 1) c1 (emit (Udelay 1) s2))
      else (i, c, s))"
  by pat_completeness auto
termination
  by (relation "measure (\<lambda>(p, hw, slot, i, c, s). MACB_TX_TIMEOUT + 1 - i)") auto

definition newline :: string where "newline = [CHR 0x0A]"

definition macb_send_report :: "platform \<Rightarrow> string \<Rightarrow> nat \<Rightarrow> u32 \<Rightarrow> macb_device \<Rightarrow> macb_device" where
  "macb_send_report p name i c s =
     (if i \<le> MACB_TX_TIMEOUT
      then (let s1 = (if c AND BIT_TX_UNDERRUN p \<noteq> 0
                      then emit (Printf (name @ '': TX underrun'' @ newline)) s else s)
            in if c AND BIT_TX_BUF_EXHAUSTED p \<noteq> 0
               then emit (Printf (name @ '': TX buffers exhausted in mid frame'' @ newline)) s1
               else s1)
      else emit (Printf (name @ '': TX timeout'' @ newline)) s)"

text \<open>\<^verbatim>\<open>_macb_send\<close>: the value returned and the state left.\<close>

definition do_macb_send ::
  "platform \<Rightarrow> (nat \<Rightarrow> u32) \<Rightarrow> macb_device \<Rightarrow> string \<Rightarrow> ulong \<Rightarrow> int \<Rightarrow> int \<times> macb_device" where
  "do_macb_send p hw s name packet len =
     (case macb_send_submit p s packet len of (paddr, slot, c0, s1) \<Rightarrow>
        (case tx_poll p hw slot 0 c0 s1 of (i, c, s2) \<Rightarrow>
           (let s3 = emit (Dma_unmap_single paddr len) s2
            in (0, macb_send_report p name i c s3))))"

subsection \<open>Deferred release: \<^verbatim>\<open>reclaim_rx_buffer\<close> and \<^verbatim>\<open>reclaim_rx_buffers\<close>\<close>

text \<open>\<^verbatim>\<open>x & ~m\<close> on \<^verbatim>\<open>unsigned int\<close>.\<close>

definition and_not_u32 :: "nat \<Rightarrow> nat \<Rightarrow> nat" where
  "and_not_u32 x m = unat ((of_nat x :: u32) AND NOT (of_nat m))"

text \<open>\<^verbatim>\<open>DESC_PER_CACHELINE_64 - 1\<close> or \<^verbatim>\<open>DESC_PER_CACHELINE_32 - 1\<close>, as \<^verbatim>\<open>unsigned int\<close>.\<close>

definition reclaim_mask :: "platform \<Rightarrow> macb_device \<Rightarrow> nat" where
  "reclaim_mask p s =
     (if dma_64b s then (DESC_PER_CACHELINE_64 p + 2 ^ 32 - 1) mod 2 ^ 32
      else (DESC_PER_CACHELINE_32 p + 2 ^ 32 - 1) mod 2 ^ 32)"

definition reclaim_shift :: "macb_device \<Rightarrow> nat" where
  "reclaim_shift s = (if dma_64b s then 1 else 0)"

text \<open>
  The loop of line 459: \<^verbatim>\<open>for (i = idx & (~mask); i <= idx; i++)\<close>. It ends for
  every \<open>idx\<close> below \<open>2 ^ 32 - 1\<close>, where \<^verbatim>\<open>i++\<close> does not wrap.
\<close>

function clear_used_from :: "platform \<Rightarrow> nat \<Rightarrow> nat \<Rightarrow> nat \<Rightarrow> macb_device \<Rightarrow> macb_device" where
  "clear_used_from p shift idx i s =
     (if i \<le> idx
      then (let slot = push_bit shift i mod 2 ^ 32;
                d = rx_ring s slot;
                s1 = s\<lparr>rx_ring := (rx_ring s)(slot := d\<lparr>addr := addr d AND NOT (BIT_RX_USED p)\<rparr>)\<rparr>
            in clear_used_from p shift idx (i + 1) (emit (Clear_rx_used i) s1))
      else s)"
  by pat_completeness auto
termination
  by (relation "measure (\<lambda>(p, shift, idx, i, s). idx + 1 - i)") auto

definition reclaim_rx_buffer :: "platform \<Rightarrow> nat \<Rightarrow> macb_device \<Rightarrow> macb_device" where
  "reclaim_rx_buffer p idx s =
     (let mask = reclaim_mask p s;
          shift = reclaim_shift s
      in if idx AND mask \<noteq> mask then s
         else clear_used_from p shift idx (and_not_u32 idx mask) s)"

text \<open>The first loop of \<^verbatim>\<open>reclaim_rx_buffers\<close>: from the old tail to the end of the ring.\<close>

function reclaim_to_ring_end :: "platform \<Rightarrow> nat \<Rightarrow> nat \<Rightarrow> macb_device \<Rightarrow> nat \<times> macb_device" where
  "reclaim_to_ring_end p new_tail i s =
     (if i > new_tail
      then (let s1 = reclaim_rx_buffer p i s;
                i1 = (i + 1) mod 2 ^ 32;
                i2 = (if i1 \<ge> MACB_RX_RING_SIZE then 0 else i1)
            in reclaim_to_ring_end p new_tail i2 s1)
      else (i, s))"
  by pat_completeness auto
termination
proof (relation "measure (\<lambda>(p, new_tail, i, s).
         if i > new_tail then (if i < MACB_RX_RING_SIZE then MACB_RX_RING_SIZE + 1 - i
            else if i < 2 ^ 32 then 1 else MACB_RX_RING_SIZE + 2) else 0)", goal_cases)
  case 1
  show ?case by simp
next
  case prems: (2 p new_tail i s)
  consider "i + 1 < 2 ^ 32" | "i + 1 = 2 ^ 32" | "2 ^ 32 \<le> i"
    by linarith
  then show ?case
  proof cases
    case 1
    then have "(i + 1) mod 2 ^ 32 = i + 1" by simp
    with prems 1 show ?thesis by (auto simp: MACB_RX_RING_SIZE_def)
  next
    case 2
    then have "(i + 1) mod 2 ^ 32 = 0" by simp
    with prems show ?thesis by (auto simp: MACB_RX_RING_SIZE_def)
  next
    case 3
    with prems show ?thesis by (auto simp: MACB_RX_RING_SIZE_def)
  qed
qed

text \<open>The second loop: from there up to the new tail.\<close>

function reclaim_up_to :: "platform \<Rightarrow> nat \<Rightarrow> nat \<Rightarrow> macb_device \<Rightarrow> nat \<times> macb_device" where
  "reclaim_up_to p new_tail i s =
     (if i < new_tail
      then reclaim_up_to p new_tail (i + 1) (reclaim_rx_buffer p i s)
      else (i, s))"
  by pat_completeness auto
termination
  by (relation "measure (\<lambda>(p, new_tail, i, s). new_tail - i)") auto

definition reclaim_rx_buffers :: "platform \<Rightarrow> nat \<Rightarrow> macb_device \<Rightarrow> macb_device" where
  "reclaim_rx_buffers p new_tail s =
     (let i = rx_tail s;
          s1 = macb_invalidate_ring_desc p True s
      in case reclaim_to_ring_end p new_tail i s1 of (i1, s2) \<Rightarrow>
           (case reclaim_up_to p new_tail i1 s2 of (i2, s3) \<Rightarrow>
              (macb_flush_ring_desc p True s3)\<lparr>rx_tail := new_tail\<rparr>))"

subsection \<open>Receive: \<^verbatim>\<open>_macb_recv\<close>\<close>

text \<open>
  \<^verbatim>\<open>memcpy(dst + d, src + s, n)\<close> on two buffers of known size. A copy that leaves
  either buffer is undefined in C; it is \<open>None\<close> here.
\<close>

definition memcpy :: "byte list \<Rightarrow> nat \<Rightarrow> byte list \<Rightarrow> nat \<Rightarrow> nat \<Rightarrow> byte list option" where
  "memcpy dst d src s n =
     (if d + n \<le> length dst \<and> s + n \<le> length src
      then Some (take d dst @ take n (drop s src) @ drop (d + n) dst)
      else None)"

text \<open>
  What \<^verbatim>\<open>_macb_recv\<close> hands back: \<^verbatim>\<open>-EAGAIN\<close>, or the length together with the
  pointer stored in \<^verbatim>\<open>*packetp\<close>, which is either an offset into the buffer pool or
  \<^verbatim>\<open>net_rx_packets[0]\<close>.
\<close>

datatype packetp = Rx_buffer_at nat | Net_rx_packets0

datatype recv_ret = EAGAIN | Received nat packetp

datatype fault = Memcpy_out_of_bounds

datatype outcome = Returned recv_ret macb_device | Faulted fault

datatype iteration = Done outcome | Next nat bool macb_device

text \<open>The slot of the descriptor the loop looks at (line 500).\<close>

definition rx_slot :: "macb_device \<Rightarrow> nat \<Rightarrow> nat" where
  "rx_slot s n = (if dma_64b s then (n * 2) mod 2 ^ 32 else n)"

text \<open>Lines 507 to 516: a descriptor that starts a frame.\<close>

definition recv_sof :: "platform \<Rightarrow> nat \<Rightarrow> bool \<Rightarrow> macb_device \<Rightarrow> nat \<times> bool \<times> macb_device" where
  "recv_sof p n flag s =
     (let n1 = (if dma_64b s then n div 2 else n);
          flag1 = (if dma_64b s then True else flag);
          s1 = (if n1 \<noteq> rx_tail s then reclaim_rx_buffers p n1 s else s)
      in (n1, flag1, s1\<lparr>wrapped := False\<rparr>))"

text \<open>
  Lines 518 to 547: a descriptor that ends a frame. \<open>headlen\<close> and \<open>taillen\<close> are
  \<^verbatim>\<open>unsigned int\<close>: the product is cut to 32 bits, and the subtraction
  \<^verbatim>\<open>length - headlen\<close> wraps.
\<close>

definition headlen :: "macb_device \<Rightarrow> nat" where
  "headlen s =
     (rx_buffer_size s * ((MACB_RX_RING_SIZE + 2 ^ 32 - rx_tail s) mod 2 ^ 32)) mod 2 ^ 32"

definition taillen :: "nat \<Rightarrow> nat \<Rightarrow> nat" where
  "taillen len hl = (len + 2 ^ 32 - hl) mod 2 ^ 32"

definition recv_eof :: "platform \<Rightarrow> u32 \<Rightarrow> nat \<Rightarrow> bool \<Rightarrow> macb_device \<Rightarrow> outcome" where
  "recv_eof p status n flag s =
     (let buffer = rx_buffer_size s * rx_tail s;
          len = unat (status AND RXBUF_FRMLEN_MASK);
          s1 = macb_invalidate_rx_buffer p s;
          n1 = (if dma_64b s1 \<and> \<not> flag then n div 2 else n);
          n2 = (if (n1 + 1) mod 2 ^ 32 \<ge> MACB_RX_RING_SIZE then 0 else (n1 + 1) mod 2 ^ 32)
      in if wrapped s1
         then (case memcpy (net_rx_packets0 s1) 0 (rx_buffer s1) buffer (headlen s1) of
                 None \<Rightarrow> Faulted Memcpy_out_of_bounds
               | Some b1 \<Rightarrow>
                   (case memcpy b1 (headlen s1) (rx_buffer s1) 0 (taillen len (headlen s1)) of
                      None \<Rightarrow> Faulted Memcpy_out_of_bounds
                    | Some b2 \<Rightarrow>
                        Returned (Received len Net_rx_packets0)
                          (s1\<lparr>net_rx_packets0 := b2, next_rx_tail := n2\<rparr>)))
         else Returned (Received len (Rx_buffer_at buffer)) (s1\<lparr>next_rx_tail := n2\<rparr>))"

text \<open>Lines 549 to 559: neither the end of a frame nor a free descriptor; move on.\<close>

definition recv_advance :: "nat \<Rightarrow> bool \<Rightarrow> macb_device \<Rightarrow> iteration" where
  "recv_advance n flag s =
     (let n1 = (if dma_64b s \<and> \<not> flag then n div 2 else n);
          flag1 = (if dma_64b s then False else flag)
      in if (n1 + 1) mod 2 ^ 32 \<ge> MACB_RX_RING_SIZE
         then Next 0 flag1 (s\<lparr>wrapped := True\<rparr>)
         else Next ((n1 + 1) mod 2 ^ 32) flag1 s)"

text \<open>One round of the \<^verbatim>\<open>for (;;)\<close> loop, with the locals \<open>next_rx_tail\<close> and \<open>flag\<close>.\<close>

definition recv_iteration :: "platform \<Rightarrow> nat \<Rightarrow> bool \<Rightarrow> macb_device \<Rightarrow> iteration" where
  "recv_iteration p n flag s =
     (let s1 = macb_invalidate_ring_desc p True s;
          n1 = rx_slot s1 n
      in if addr (rx_ring s1 n1) AND BIT_RX_USED p = 0 then Done (Returned EAGAIN s1)
         else (let status = ctrl (rx_ring s1 n1)
               in case (if status AND BIT_RX_SOF p \<noteq> 0 then recv_sof p n1 flag s1
                        else (n1, flag, s1)) of
                    (n2, flag2, s2) \<Rightarrow>
                      if status AND BIT_RX_EOF p \<noteq> 0 then Done (recv_eof p status n2 flag2 s2)
                      else recv_advance n2 flag2 s2))"

text \<open>
  The loop has no bound of its own: on a ring whose descriptors are all owned by software
  and none of which ends a frame it never returns. \<open>fuel\<close> bounds the number of rounds;
  \<open>None\<close> says that the loop is still running.
\<close>

fun recv_loop :: "platform \<Rightarrow> nat \<Rightarrow> nat \<Rightarrow> bool \<Rightarrow> macb_device \<Rightarrow> outcome option" where
  "recv_loop p 0 n flag s = None"
| "recv_loop p (Suc fuel) n flag s =
     (case recv_iteration p n flag s of
        Done out \<Rightarrow> Some out
      | Next n1 flag1 s1 \<Rightarrow> recv_loop p fuel n1 flag1 s1)"

definition do_macb_recv :: "platform \<Rightarrow> nat \<Rightarrow> macb_device \<Rightarrow> outcome option" where
  "do_macb_recv p fuel s = recv_loop p fuel (next_rx_tail s) False (s\<lparr>wrapped := False\<rparr>)"

text \<open>
  The frame as the controller leaves it in the buffer pool: \<open>len\<close> bytes from offset
  \<open>start\<close> on, continuing at the start of the pool behind its last byte.
\<close>

definition dma_frame :: "byte list \<Rightarrow> nat \<Rightarrow> nat \<Rightarrow> byte list" where
  "dma_frame pool start len = map (\<lambda>k. pool ! ((start + k) mod length pool)) [0..<len]"

subsection \<open>Queues: \<^verbatim>\<open>gmac_init_multi_queues\<close>\<close>

text \<open>
  Modelled from the spec: \<^verbatim>\<open>ilog2\<close> of the kernel headers is not among the sources.
  "floor(log2(total_segments / active_queue_count))": the position of the highest bit
  set. The spec gives no value at 0, where this definition has 0.
\<close>

fun ilog2 :: "nat \<Rightarrow> nat" where
  "ilog2 n = (if n < 2 then 0 else Suc (ilog2 (n div 2)))"

declare ilog2.simps [simp del]

text \<open>Lines 976 to 982.\<close>

definition disable_all_queues :: "platform \<Rightarrow> macb_device \<Rightarrow> macb_device" where
  "disable_all_queues p s =
     fold (\<lambda>i s. macb_writel (RBQP (i - 1)) 1 (macb_writel (TBQP (i - 1)) 1 s))
       [1..<MACB_MAX_QUEUES p] s"

text \<open>Lines 985 to 989.\<close>

definition gmac_queue_mask :: "macb_device \<Rightarrow> u32" where
  "gmac_queue_mask s =
     (let q0 = regs s DCFG6 AND 0xffff;
          q1 = (if queue_mask (config s) \<noteq> 0 then q0 AND ucast (queue_mask (config s)) else q0)
      in q1 OR 1)"

text \<open>Lines 971 and 991 to 993.\<close>

definition gmac_num_queues :: "platform \<Rightarrow> u32 \<Rightarrow> nat" where
  "gmac_num_queues p qm =
     1 + length (filter (\<lambda>i. qm AND push_bit i 1 \<noteq> 0) [1..<MACB_MAX_QUEUES p])"

text \<open>
  One round of the loop of lines 1004 to 1025, on \<open>seg_alloc_lower\<close>, \<open>seg_alloc_upper\<close>
  and the registers.
\<close>

definition init_queue ::
  "platform \<Rightarrow> u32 \<Rightarrow> ulong \<Rightarrow> nat \<Rightarrow> nat \<Rightarrow> u32 \<times> u32 \<times> macb_device \<Rightarrow> u32 \<times> u32 \<times> macb_device" where
  "init_queue p qm paddr seg_per_queue i st =
     (case st of (lower, upper, s) \<Rightarrow>
        if qm AND push_bit i 1 = 0 then (lower, upper, s)
        else (let s1 = macb_writel (TBQP (i - 1)) (lower_32_bits paddr) s;
                  s2 = macb_writel (RBQP (i - 1)) (lower_32_bits paddr) s1;
                  s3 = (if dma_64b s2
                        then macb_writel (RBQPH (i - 1)) (upper_32_bits paddr)
                               (macb_writel (TBQPH (i - 1)) (upper_32_bits paddr) s2)
                        else s2)
              in if i < MACB_LOWER_SEGMENTS_NUM p
                 then (lower OR push_bit (i * 4) (of_nat seg_per_queue), upper, s3)
                 else (lower,
                       upper OR push_bit ((i - MACB_LOWER_SEGMENTS_NUM p) * 4) (of_nat seg_per_queue),
                       s3)))"

definition gmac_init_multi_queues :: "platform \<Rightarrow> macb_device \<Rightarrow> int \<times> macb_device" where
  "gmac_init_multi_queues p s =
     (let s1 = (if disable_queues_at_init (config s) then disable_all_queues p s else s);
          qm = gmac_queue_mask s1;
          num_queues = gmac_num_queues p qm;
          s2 = s1\<lparr>dummy_desc := \<lparr>addr = 0, ctrl = BIT_TX_USED p\<rparr>\<rparr>;
          s3 = emit (Flush_dcache_range (unat (dummy_desc_dma s2))
                 (unat (dummy_desc_dma s2) + ALIGN MACB_TX_DUMMY_DMA_DESC_SIZE (PKTALIGN p))) s2;
          paddr = dummy_desc_dma s3;
          seg_per_queue = ilog2 (MACB_SEGMENTS_NUM p div num_queues)
      in case fold (init_queue p qm paddr seg_per_queue) [1..<num_queues] (0, 0, s3) of
           (seg_alloc_lower, seg_alloc_upper, s4) \<Rightarrow>
             (0, if allocate_segments_equally (config s4)
                 then macb_writel SEG_ALLOC_UPPER seg_alloc_upper
                        (macb_writel SEG_ALLOC_LOWER seg_alloc_lower s4)
                 else s4))"

subsection \<open>Concrete platforms and devices\<close>

text \<open>
  A platform with the descriptor layout of the Cadence controller, 64-byte cache lines,
  eight queues and sixteen buffer segments, and devices on it. They are the inputs at
  which the theorems below are instantiated.
\<close>

definition cadence :: platform where
  "cadence = \<lparr>BIT_RX_USED = 0x1, BIT_RX_WRAP = 0x2, BIT_RX_SOF = 0x4000, BIT_RX_EOF = 0x8000,
     BIT_TX_LAST = 0x8000, BIT_TX_WRAP = 0x40000000, BIT_TX_USED = 0x80000000,
     BIT_TX_UNDERRUN = 0x10000000, BIT_TX_BUF_EXHAUSTED = 0x8000000,
     BIT_TE = 0x8, BIT_RE = 0x4, BIT_TSTART = 0x200,
     ARCH_DMA_MINALIGN = 64, PKTALIGN = 64, MACB_MAX_QUEUES = 8, MACB_SEGMENTS_NUM = 16,
     MACB_LOWER_SEGMENTS_NUM = 8, dma_addr_of = id\<rparr>"

definition default_gem_config :: macb_config where
  "default_gem_config = \<lparr>dma_burst_length = 16, hw_dma_cap = HW_DMA_CAP_32B, caps = 0,
     queue_mask = 0, disable_queues_at_halt = False, disable_queues_at_init = False,
     allocate_segments_equally = False, disable_clocks_at_stop = False\<rparr>"

definition hailo15_config :: macb_config where
  "hailo15_config = \<lparr>dma_burst_length = 0, hw_dma_cap = HW_DMA_CAP_64B, caps = 0,
     queue_mask = 3, disable_queues_at_halt = True, disable_queues_at_init = True,
     allocate_segments_equally = True, disable_clocks_at_stop = True\<rparr>"

definition zero_desc :: macb_dma_desc where
  "zero_desc = \<lparr>addr = 0, ctrl = 0\<rparr>"

definition zero_ring :: "nat \<Rightarrow> macb_dma_desc" where
  "zero_ring i = zero_desc"

definition zero_regs :: "reg \<Rightarrow> u32" where
  "zero_regs r = 0"

text \<open>
  A device with zeroed rings and registers and two-byte receive slots, from which the
  concrete devices below are built.
\<close>

definition dev0 :: "macb_config \<Rightarrow> macb_device" where
  "dev0 c = \<lparr>config = c, rx_tail = 0, tx_head = 0, tx_tail = 0, next_rx_tail = 0,
     wrapped = False, rx_buffer = replicate 64 0, rx_ring = zero_ring, tx_ring = zero_ring,
     rx_buffer_size = 2, rx_buffer_dma = 0x1000, rx_ring_dma = 0x2000, tx_ring_dma = 0x3000,
     dummy_desc = zero_desc, dummy_desc_dma = 0x4000, regs = zero_regs,
     net_rx_packets0 = replicate 16 0, trace = []\<rparr>"

text \<open>A controller that never finishes the frame, and one that has finished at the first poll.\<close>

definition stuck_hw :: "nat \<Rightarrow> u32" where
  "stuck_hw i = 0"

definition prompt_hw :: "nat \<Rightarrow> u32" where
  "prompt_hw i = 0x80000000"

text \<open>The number of one-microsecond delays in the trace.\<close>

definition udelays :: "macb_device \<Rightarrow> nat" where
  "udelays s = length (filter (\<lambda>e. e = Udelay 1) (trace s))"


text \<open>
  The second state differs from the first at most in the ring, where only ownership bits
  of address words have been cleared, and in the trace.
\<close>

definition released_only :: "platform \<Rightarrow> macb_device \<Rightarrow> macb_device \<Rightarrow> bool" where
  "released_only p s s' \<longleftrightarrow>
     s'\<lparr>rx_ring := rx_ring s, trace := trace s\<rparr> = s
     \<and> (\<forall>j. ctrl (rx_ring s' j) = ctrl (rx_ring s j)
            \<and> (addr (rx_ring s' j) = addr (rx_ring s j)
               \<or> addr (rx_ring s' j) = addr (rx_ring s j) AND NOT (BIT_RX_USED p)))"

text \<open>The number of descriptors in a cache line, for the addressing mode of the device.\<close>

definition desc_per_line :: "platform \<Rightarrow> macb_device \<Rightarrow> nat" where
  "desc_per_line p s = (if dma_64b s then DESC_PER_CACHELINE_64 p else DESC_PER_CACHELINE_32 p)"

text \<open>The first index of the line of \<open>i\<close>, for lines of \<open>d\<close> descriptors.\<close>

definition line_base :: "nat \<Rightarrow> nat \<Rightarrow> nat" where
  "line_base d i = i - i mod d"

text \<open>
  The descriptors that a call of \<^verbatim>\<open>reclaim_rx_buffers\<close> from tail \<open>t\<close> to tail \<open>n\<close>
  releases, in the order of the stores: whole lines, from the line of the old tail up to
  the last line that ends before the new tail, around the end of the ring when the old
  tail is above the new one.
\<close>

definition released :: "nat \<Rightarrow> nat \<Rightarrow> nat \<Rightarrow> nat list" where
  "released d t n =
     (if t > n then [line_base d t..<line_base d MACB_RX_RING_SIZE] @ [0..<line_base d n]
      else [line_base d t..<line_base d n])"

text \<open>A ring whose descriptors are all owned by software, the last bit of the address word being the ownership bit and the next the wrap marker.\<close>

definition used_ring :: "nat \<Rightarrow> macb_dma_desc" where
  "used_ring i = \<lparr>addr = 0x1003, ctrl = 0\<rparr>"

text \<open>A device with 32-bit addressing on that ring.\<close>

definition rx_dev_used :: macb_device where
  "rx_dev_used = (dev0 default_gem_config)\<lparr>rx_ring := used_ring\<rparr>"

text \<open>
  What a call of \<^verbatim>\<open>_macb_recv\<close> keeps of the state \<open>s0\<close> it started in while it
  scans: the buffer pool, the slot size, \<^verbatim>\<open>net_rx_packets[0]\<close> and the configuration;
  and the reclaim tail stays inside the ring.
\<close>

definition rx_scan_inv :: "macb_device \<Rightarrow> macb_device \<Rightarrow> bool" where
  "rx_scan_inv s0 s \<longleftrightarrow>
     rx_buffer s = rx_buffer s0 \<and> rx_buffer_size s = rx_buffer_size s0
     \<and> net_rx_packets0 s = net_rx_packets0 s0 \<and> config s = config s0
     \<and> rx_tail s < MACB_RX_RING_SIZE"

text \<open>
  A ring in which a frame of three bytes starts in descriptor 31 and ends in descriptor 0.
\<close>

definition wrap_ring :: "nat \<Rightarrow> macb_dma_desc" where
  "wrap_ring i =
     (if i = 31 then \<lparr>addr = 0x1003, ctrl = 0x4000\<rparr>
      else if i = 0 then \<lparr>addr = 0x1001, ctrl = 0x8003\<rparr>
      else zero_desc)"

text \<open>
  A device with two-byte slots that is about to receive that frame: the pool holds its
  first two bytes in slot 31 and the third in slot 0.
\<close>

definition rx_wrap_dev :: macb_device where
  "rx_wrap_dev = (dev0 default_gem_config)\<lparr>rx_tail := 31, next_rx_tail := 31,
     rx_buffer := 0xCC # replicate 61 0 @ [0xAA, 0xBB], rx_ring := wrap_ring\<rparr>"

text \<open>The same device after \<^verbatim>\<open>_macb_recv\<close> has returned the frame.\<close>

definition rx_wrap_done :: macb_device where
  "rx_wrap_done = rx_wrap_dev\<lparr>next_rx_tail := 1, wrapped := True,
     net_rx_packets0 := [0xAA, 0xBB, 0xCC] @ replicate 13 0,
     trace := [Invalidate_dcache_range 0x2000 0x2200, Invalidate_dcache_range 0x2000 0x2200,
               Invalidate_dcache_range 0x1000 0x1040]\<rparr>"

text \<open>
  A device whose capability register reports the queues 1 and 3 and whose configuration
  allows the queues 0 to 4, with and without equal allocation of the segments.
\<close>

definition queue_dev :: "bool \<Rightarrow> macb_device" where
  "queue_dev alloc =
     (dev0 (default_gem_config\<lparr>queue_mask := 0x1f, allocate_segments_equally := alloc\<rparr>))
       \<lparr>regs := zero_regs(DCFG6 := 0xa)\<rparr>"

text \<open>The same capability register under the configuration of the Hailo-15 boards.\<close>

definition hailo_dev :: macb_device where
  "hailo_dev = (dev0 hailo15_config)\<lparr>regs := zero_regs(DCFG6 := 0xa)\<rparr>"




section \<open>Transmit\<close>

declare tx_poll.simps [simp del]

lemma trace_emit [simp]: "trace (emit e s) = trace s @ [e]"
  by (simp add: emit_def)

lemma emit_fields [simp]:
  "tx_head (emit e s) = tx_head s" "tx_ring (emit e s) = tx_ring s"
  "rx_ring (emit e s) = rx_ring s" "rx_tail (emit e s) = rx_tail s"
  "config (emit e s) = config s" "regs (emit e s) = regs s"
  "rx_buffer (emit e s) = rx_buffer s" "rx_buffer_size (emit e s) = rx_buffer_size s"
  "net_rx_packets0 (emit e s) = net_rx_packets0 s" "wrapped (emit e s) = wrapped s"
  "next_rx_tail (emit e s) = next_rx_tail s" "dma_64b (emit e s) = dma_64b s"
  by (simp_all add: emit_def dma_64b_def)

lemma submit_paddr: "fst (macb_send_submit p s packet len) = dma_addr_of p packet"
  by (simp add: macb_send_submit_def Let_def)

lemma submit_trace:
  "trace (snd (snd (snd (macb_send_submit p s packet len)))) =
     trace s @ [Dma_map_single packet len,
       Flush_dcache_range (tx_ring_dma s) (tx_ring_dma s + ALIGN MACB_TX_DMA_DESC_SIZE (PKTALIGN p))]"
  by (simp add: macb_send_submit_def Let_def macb_flush_ring_desc_def macb_writel_def emit_def)

lemma tx_poll_trace: "\<exists>evs. trace (snd (snd (tx_poll p hw slot i c s))) = trace s @ evs"
proof (induction p hw slot i c s rule: tx_poll.induct)
  case (1 p hw slot i c s)
  show ?case
  proof (cases "i \<le> MACB_TX_TIMEOUT")
    case False
    then show ?thesis by (subst tx_poll.simps) simp
  next
    case True
    let ?s1 = "macb_invalidate_ring_desc p False s"
    let ?s2 = "?s1\<lparr>tx_ring := (tx_ring ?s1)(slot := (tx_ring ?s1 slot)\<lparr>ctrl := hw i\<rparr>)\<rparr>"
    show ?thesis
    proof (cases "hw i AND BIT_TX_USED p \<noteq> 0")
      case used: True
      with True show ?thesis
        by (subst tx_poll.simps) (simp add: Let_def macb_invalidate_ring_desc_def)
    next
      case free: False
      from "1.IH"[OF True refl refl refl] free
      obtain evs where "trace (snd (snd (tx_poll p hw slot (i + 1) (hw i) (emit (Udelay 1) ?s2)))) =
          trace (emit (Udelay 1) ?s2) @ evs"
        by auto
      with True free show ?thesis
        by (subst tx_poll.simps) (simp add: Let_def macb_invalidate_ring_desc_def)
    qed
  qed
qed

lemma report_trace: "\<exists>msgs. trace (macb_send_report p name i c s) = trace s @ msgs"
  by (simp add: macb_send_report_def Let_def)

lemma send_ret: "fst (do_macb_send p hw s name packet len) = 0"
  by (simp add: do_macb_send_def Let_def split: prod.splits)

lemma send_trace:
  "\<exists>mid msgs. trace (snd (do_macb_send p hw s name packet len)) =
      trace s @ [Dma_map_single packet len] @ mid @ [Dma_unmap_single (dma_addr_of p packet) len] @ msgs"
proof -
  obtain paddr slot c0 s1 where sub: "macb_send_submit p s packet len = (paddr, slot, c0, s1)"
    by (cases "macb_send_submit p s packet len") auto
  obtain i c s2 where poll: "tx_poll p hw slot 0 c0 s1 = (i, c, s2)"
    by (cases "tx_poll p hw slot 0 c0 s1") auto
  from sub submit_paddr[of p s packet len] have pa: "paddr = dma_addr_of p packet" by simp
  from sub submit_trace[of p s packet len]
  have t1: "trace s1 = trace s @ [Dma_map_single packet len,
       Flush_dcache_range (tx_ring_dma s) (tx_ring_dma s + ALIGN MACB_TX_DMA_DESC_SIZE (PKTALIGN p))]"
    by simp
  from poll tx_poll_trace[of p hw slot 0 c0 s1] obtain evs where t2: "trace s2 = trace s1 @ evs"
    by auto
  obtain msgs where t3: "trace (macb_send_report p name i c (emit (Dma_unmap_single paddr len) s2)) =
      trace (emit (Dma_unmap_single paddr len) s2) @ msgs"
    using report_trace by blast
  have "trace (snd (do_macb_send p hw s name packet len)) =
      trace s @ [Dma_map_single packet len] @
        (Flush_dcache_range (tx_ring_dma s) (tx_ring_dma s + ALIGN MACB_TX_DMA_DESC_SIZE (PKTALIGN p)) # evs) @
        [Dma_unmap_single (dma_addr_of p packet) len] @ msgs"
    using sub poll t1 t2 t3 pa by (simp add: do_macb_send_def Let_def)
  then show ?thesis by blast
qed

text \<open>
  Claim C8. Whatever the controller does while \<^verbatim>\<open>_macb_send\<close> polls (it completes, it
  completes with the underrun or buffer-exhausted flag, or it never sets the ownership
  bit), the call returns, and the buffer that was mapped for DMA at the start has been
  unmapped by then: the events of the call are the mapping, then the descriptor flush and
  the polls, then the unmapping of the same address and length, then at most console
  messages. \<open>do_macb_send\<close> is a total function, so no controller keeps it from returning.
\<close>

theorem send_unmaps_buffer:
  "Dma_unmap_single (dma_addr_of p packet) len \<in> set (trace (snd (do_macb_send p hw s name packet len)))
   \<and> (\<exists>mid msgs. trace (snd (do_macb_send p hw s name packet len)) =
         trace s @ [Dma_map_single packet len] @ mid @
           [Dma_unmap_single (dma_addr_of p packet) len] @ msgs)"
proof -
  obtain mid msgs where t: "trace (snd (do_macb_send p hw s name packet len)) =
      trace s @ [Dma_map_single packet len] @ mid @ [Dma_unmap_single (dma_addr_of p packet) len] @ msgs"
    using send_trace by blast
  then have "Dma_unmap_single (dma_addr_of p packet) len
      \<in> set (trace (snd (do_macb_send p hw s name packet len)))"
    by simp
  with t show ?thesis by blast
qed

text \<open>
  Claim C9. For every buffer and length and every behaviour of the controller,
  \<^verbatim>\<open>_macb_send\<close> returns the integer 0.
\<close>

theorem send_returns_zero: "fst (do_macb_send p hw s name packet len) = 0"
  by (rule send_ret)






lemma set_addr_high:
  "macb_set_addr True ring i a (Suc i) = (ring (Suc i))\<lparr>addr := upper_32_bits a\<rparr>"
  by (auto simp: macb_set_addr_def Let_def)






lemma tx_poll_stuck:
  assumes "\<forall>j. i \<le> j \<and> j \<le> MACB_TX_TIMEOUT \<longrightarrow> hw j AND BIT_TX_USED p = 0"
    and "i \<le> MACB_TX_TIMEOUT + 1"
  shows "fst (tx_poll p hw slot i c s) = MACB_TX_TIMEOUT + 1
     \<and> udelays (snd (snd (tx_poll p hw slot i c s))) = udelays s + (MACB_TX_TIMEOUT + 1 - i)"
  using assms
proof (induction p hw slot i c s rule: tx_poll.induct)
  case (1 p hw slot i c s)
  show ?case
  proof (cases "i \<le> MACB_TX_TIMEOUT")
    case False
    with "1.prems" have "i = MACB_TX_TIMEOUT + 1" by simp
    then show ?thesis by (subst tx_poll.simps, subst tx_poll.simps) simp
  next
    case True
    let ?s1 = "macb_invalidate_ring_desc p False s"
    let ?s2 = "?s1\<lparr>tx_ring := (tx_ring ?s1)(slot := (tx_ring ?s1 slot)\<lparr>ctrl := hw i\<rparr>)\<rparr>"
    from "1.prems" True have free: "hw i AND BIT_TX_USED p = 0" by simp
    have step: "tx_poll p hw slot i c s = tx_poll p hw slot (i + 1) (hw i) (emit (Udelay 1) ?s2)"
      using True free by (subst tx_poll.simps) (simp add: Let_def macb_invalidate_ring_desc_def)
    have "fst (tx_poll p hw slot (i + 1) (hw i) (emit (Udelay 1) ?s2)) = MACB_TX_TIMEOUT + 1
      \<and> udelays (snd (snd (tx_poll p hw slot (i + 1) (hw i) (emit (Udelay 1) ?s2)))) =
          udelays (emit (Udelay 1) ?s2) + (MACB_TX_TIMEOUT + 1 - (i + 1))"
      using "1.IH"[OF True refl refl refl] free "1.prems" True by simp
    moreover have "udelays (emit (Udelay 1) ?s2) = udelays s + 1"
      by (simp add: udelays_def macb_invalidate_ring_desc_def)
    ultimately show ?thesis
      unfolding step using True by simp
  qed
qed

lemma report_timeout:
  "MACB_TX_TIMEOUT < i \<Longrightarrow>
     macb_send_report p name i c s = emit (Printf (name @ '': TX timeout'' @ newline)) s"
  by (simp add: macb_send_report_def)

lemma send_timeout_trace:
  assumes stuck: "\<forall>i \<le> MACB_TX_TIMEOUT. hw i AND BIT_TX_USED p = 0"
  shows "(\<exists>mid. trace (snd (do_macb_send p hw s name packet len)) =
            trace s @ mid @ [Dma_unmap_single (dma_addr_of p packet) len,
                             Printf (name @ '': TX timeout'' @ newline)])
     \<and> udelays (snd (do_macb_send p hw s name packet len)) = udelays s + (MACB_TX_TIMEOUT + 1)"
proof -
  obtain paddr slot c0 s1 where sub: "macb_send_submit p s packet len = (paddr, slot, c0, s1)"
    by (cases "macb_send_submit p s packet len") auto
  obtain i c s2 where poll: "tx_poll p hw slot 0 c0 s1 = (i, c, s2)"
    by (cases "tx_poll p hw slot 0 c0 s1") auto
  from sub submit_paddr[of p s packet len] have pa: "paddr = dma_addr_of p packet" by simp
  from sub submit_trace[of p s packet len]
  have t1: "trace s1 = trace s @ [Dma_map_single packet len,
       Flush_dcache_range (tx_ring_dma s) (tx_ring_dma s + ALIGN MACB_TX_DMA_DESC_SIZE (PKTALIGN p))]"
    by simp
  from poll tx_poll_trace[of p hw slot 0 c0 s1] obtain evs where t2: "trace s2 = trace s1 @ evs"
    by auto
  from tx_poll_stuck[of 0 hw p slot c0 s1] stuck poll
  have i: "i = MACB_TX_TIMEOUT + 1" and u: "udelays s2 = udelays s1 + (MACB_TX_TIMEOUT + 1)"
    by simp_all
  have s': "snd (do_macb_send p hw s name packet len) =
      emit (Printf (name @ '': TX timeout'' @ newline)) (emit (Dma_unmap_single paddr len) s2)"
    using sub poll i by (simp add: do_macb_send_def Let_def report_timeout)
  have "trace (snd (do_macb_send p hw s name packet len)) =
      trace s @ ([Dma_map_single packet len,
       Flush_dcache_range (tx_ring_dma s) (tx_ring_dma s + ALIGN MACB_TX_DMA_DESC_SIZE (PKTALIGN p))] @ evs) @
       [Dma_unmap_single (dma_addr_of p packet) len, Printf (name @ '': TX timeout'' @ newline)]"
    by (simp add: s' t1 t2 pa)
  moreover have "udelays (snd (do_macb_send p hw s name packet len)) = udelays s + (MACB_TX_TIMEOUT + 1)"
    using u t1 by (simp add: s' udelays_def)
  ultimately show ?thesis by blast
qed

text \<open>
  Claim C4, as amended. If the ownership bit is not set at any of the
  \<open>MACB_TX_TIMEOUT + 1\<close> polls (each followed by a delay of one microsecond), then
  \<^verbatim>\<open>_macb_send\<close> unmaps the buffer, prints the message "TX timeout" and returns 0,
  the value it returns on success as well: the timeout is reported on the console only.
\<close>

theorem send_timeout_returns_zero:
  assumes "\<forall>i \<le> MACB_TX_TIMEOUT. hw i AND BIT_TX_USED p = 0"
  shows "fst (do_macb_send p hw s name packet len) = 0
     \<and> (\<exists>mid. trace (snd (do_macb_send p hw s name packet len)) =
            trace s @ mid @ [Dma_unmap_single (dma_addr_of p packet) len,
                             Printf (name @ '': TX timeout'' @ newline)])
     \<and> udelays (snd (do_macb_send p hw s name packet len)) = udelays s + (MACB_TX_TIMEOUT + 1)"
  using send_timeout_trace[OF assms] send_ret by blast

theorem send_timeout_returns_zero_witness:
  "fst (do_macb_send cadence stuck_hw (dev0 default_gem_config) ''eth0'' 0x8000 60) = 0
   \<and> udelays (snd (do_macb_send cadence stuck_hw (dev0 default_gem_config) ''eth0'' 0x8000 60)) = 1001"
proof -
  have h: "\<forall>i \<le> MACB_TX_TIMEOUT. stuck_hw i AND BIT_TX_USED cadence = 0"
    by (simp add: stuck_hw_def)
  show ?thesis
    using send_timeout_returns_zero[OF h, of "dev0 default_gem_config" "''eth0''" "0x8000" 60]
    by (simp add: udelays_def dev0_def MACB_TX_TIMEOUT_def)
qed

lemma prompt_send:
  "do_macb_send cadence prompt_hw (dev0 default_gem_config) ''eth0'' 0x8000 60 =
     (0, (dev0 default_gem_config)\<lparr>tx_head := 1,
        tx_ring := zero_ring(0 := \<lparr>addr = 0x8000, ctrl = 0x80000000\<rparr>),
        regs := zero_regs(NCR := 0x20C),
        trace := [Dma_map_single 0x8000 60, Flush_dcache_range 0x3000 0x3100,
                  Invalidate_dcache_range 0x3000 0x3100, Dma_unmap_single 0x8000 60]\<rparr>)"
  by (simp add: do_macb_send_def macb_send_submit_def Let_def tx_poll.simps cadence_def dev0_def
      default_gem_config_def prompt_hw_def macb_send_report_def macb_flush_ring_desc_def
      macb_invalidate_ring_desc_def macb_writel_def emit_def dma_64b_def HW_DMA_CAP_64B_def
      HW_DMA_CAP_32B_def MACB_TX_RING_SIZE_def MACB_TX_TIMEOUT_def TXBUF_FRMLEN_MASK_def
      macb_set_addr_def lower_32_bits_def ALIGN_def MACB_TX_DMA_DESC_SIZE_def DMA_DESC_BYTES_def
      DMA_DESC_SIZE_def zero_ring_def zero_desc_def)

text \<open>
  Claim C4 as stated fails: with a controller that never sets the ownership bit the call
  ends with the timeout message and returns the same value as the call whose frame is
  sent at the first poll.
\<close>

theorem timeout_not_distinct_counterexample:
  "fst (do_macb_send cadence stuck_hw (dev0 default_gem_config) ''eth0'' 0x8000 60) =
   fst (do_macb_send cadence prompt_hw (dev0 default_gem_config) ''eth0'' 0x8000 60)
   \<and> last (trace (snd (do_macb_send cadence stuck_hw (dev0 default_gem_config) ''eth0'' 0x8000 60))) =
       Printf (''eth0: TX timeout'' @ newline)
   \<and> trace (snd (do_macb_send cadence prompt_hw (dev0 default_gem_config) ''eth0'' 0x8000 60)) =
       [Dma_map_single 0x8000 60, Flush_dcache_range 0x3000 0x3100,
        Invalidate_dcache_range 0x3000 0x3100, Dma_unmap_single 0x8000 60]"
proof -
  have h: "\<forall>i \<le> MACB_TX_TIMEOUT. stuck_hw i AND BIT_TX_USED cadence = 0"
    by (simp add: stuck_hw_def)
  from send_timeout_trace[OF h, of "dev0 default_gem_config" "''eth0''" "0x8000" 60]
  obtain mid where "trace (snd (do_macb_send cadence stuck_hw (dev0 default_gem_config) ''eth0'' 0x8000 60)) =
      trace (dev0 default_gem_config) @ mid @ [Dma_unmap_single (dma_addr_of cadence 0x8000) 60,
         Printf (''eth0'' @ '': TX timeout'' @ newline)]"
    by blast
  then have "last (trace (snd (do_macb_send cadence stuck_hw (dev0 default_gem_config) ''eth0'' 0x8000 60))) =
       Printf (''eth0: TX timeout'' @ newline)"
    by simp
  then show ?thesis
    by (simp add: send_ret prompt_send)
qed




section \<open>Deferred release of receive descriptors\<close>

lemma nat_and_mask_mod: "(x::nat) AND (2 ^ m - 1) = x mod 2 ^ m"
proof -
  have "x AND mask m = x mod 2 ^ m"
    by (simp flip: take_bit_eq_mask add: take_bit_eq_mod)
  then show ?thesis by (simp add: mask_eq_exp_minus_1)
qed

lemma word_and_not_mask: "(w::u32) AND NOT (mask m) = push_bit m (drop_bit m w)"
  by (rule bit_eqI) (auto simp: bit_simps)

lemma and_not_u32_mask:
  assumes "x < 2 ^ 32"
  shows "and_not_u32 x (2 ^ m - 1) = x - x mod 2 ^ m"
proof -
  have m: "(of_nat (2 ^ m - 1) :: u32) = mask m"
    by (simp add: mask_eq_exp_minus_1 of_nat_diff)
  have "x div 2 ^ m * 2 ^ m \<le> x" by simp
  with assms have lt: "x div 2 ^ m * 2 ^ m < 2 ^ 32" by linarith
  have ux: "unat (of_nat x :: u32) = x"
    using assms by (simp add: unat_of_nat)
  have "unat (push_bit m (drop_bit m (of_nat x :: u32))) =
      take_bit 32 (push_bit m (drop_bit m (take_bit 32 (unat (of_nat x :: u32)))))"
    by (simp only: unsigned_push_bit_eq unsigned_drop_bit_eq) simp
  also have "\<dots> = take_bit 32 (x div 2 ^ m * 2 ^ m)"
    using assms by (simp only: ux) (simp add: take_bit_nat_eq_self push_bit_eq_mult drop_bit_eq_div)
  also have "\<dots> = x div 2 ^ m * 2 ^ m"
    using lt by (simp add: take_bit_nat_eq_self)
  finally have "unat (push_bit m (drop_bit m (of_nat x :: u32))) = x div 2 ^ m * 2 ^ m" .
  moreover have "x div 2 ^ m * 2 ^ m = x - x mod 2 ^ m"
    by (simp add: minus_mod_eq_div_mult)
  ultimately show ?thesis
    unfolding and_not_u32_def m word_and_not_mask by simp
qed

declare clear_used_from.simps [simp del]
declare reclaim_to_ring_end.simps [simp del]
declare reclaim_up_to.simps [simp del]

lemma released_only_refl: "released_only p s s"
  by (simp add: released_only_def)

lemma released_only_trans:
  assumes a: "released_only p s s'" and b: "released_only p s' s''"
  shows "released_only p s s''"
proof -
  from a have a1: "s'\<lparr>rx_ring := rx_ring s, trace := trace s\<rparr> = s"
    and a2: "\<And>j. ctrl (rx_ring s' j) = ctrl (rx_ring s j)"
    and a3: "\<And>j. addr (rx_ring s' j) = addr (rx_ring s j)
               \<or> addr (rx_ring s' j) = addr (rx_ring s j) AND NOT (BIT_RX_USED p)"
    by (simp_all add: released_only_def)
  from b have b1: "s''\<lparr>rx_ring := rx_ring s', trace := trace s'\<rparr> = s'"
    and b2: "\<And>j. ctrl (rx_ring s'' j) = ctrl (rx_ring s' j)"
    and b3: "\<And>j. addr (rx_ring s'' j) = addr (rx_ring s' j)
               \<or> addr (rx_ring s'' j) = addr (rx_ring s' j) AND NOT (BIT_RX_USED p)"
    by (simp_all add: released_only_def)
  have "s''\<lparr>rx_ring := rx_ring s, trace := trace s\<rparr> =
      (s''\<lparr>rx_ring := rx_ring s', trace := trace s'\<rparr>)\<lparr>rx_ring := rx_ring s, trace := trace s\<rparr>"
    by simp
  also have "\<dots> = s'\<lparr>rx_ring := rx_ring s, trace := trace s\<rparr>"
    by (simp only: b1)
  also have "\<dots> = s" by (rule a1)
  finally have c1: "s''\<lparr>rx_ring := rx_ring s, trace := trace s\<rparr> = s" .
  have c3: "addr (rx_ring s'' j) = addr (rx_ring s j)
       \<or> addr (rx_ring s'' j) = addr (rx_ring s j) AND NOT (BIT_RX_USED p)" for j
    using a3[of j] b3[of j] by (auto simp: and.assoc)
  show ?thesis
    unfolding released_only_def using c1 a2 b2 c3 by simp
qed

lemma released_only_emit: "released_only p s (emit e s)"
  by (simp add: released_only_def emit_def)

lemma released_only_clear_slot:
  "released_only p s
     (s\<lparr>rx_ring := (rx_ring s)(slot := (rx_ring s slot)\<lparr>addr := addr (rx_ring s slot) AND NOT (BIT_RX_USED p)\<rparr>)\<rparr>)"
  by (simp add: released_only_def)

lemma released_only_fields:
  assumes "released_only p s s'"
  shows "config s' = config s" "dma_64b s' = dma_64b s" "rx_tail s' = rx_tail s"
    "reclaim_mask p s' = reclaim_mask p s" "reclaim_shift s' = reclaim_shift s"
    "rx_ring_dma s' = rx_ring_dma s" "rx_buffer s' = rx_buffer s"
    "rx_buffer_size s' = rx_buffer_size s" "net_rx_packets0 s' = net_rx_packets0 s"
    "wrapped s' = wrapped s" "next_rx_tail s' = next_rx_tail s"
proof -
  from assms have e: "s = s'\<lparr>rx_ring := rx_ring s, trace := trace s\<rparr>"
    by (simp add: released_only_def)
  show "config s' = config s" by (subst e) simp
  then show "dma_64b s' = dma_64b s" by (simp add: dma_64b_def)
  then show "reclaim_mask p s' = reclaim_mask p s" "reclaim_shift s' = reclaim_shift s"
    by (simp_all add: reclaim_mask_def reclaim_shift_def)
  show "rx_tail s' = rx_tail s" by (subst e) simp
  show "rx_ring_dma s' = rx_ring_dma s" by (subst e) simp
  show "rx_buffer s' = rx_buffer s" by (subst e) simp
  show "rx_buffer_size s' = rx_buffer_size s" by (subst e) simp
  show "net_rx_packets0 s' = net_rx_packets0 s" by (subst e) simp
  show "wrapped s' = wrapped s" by (subst e) simp
  show "next_rx_tail s' = next_rx_tail s" by (subst e) simp
qed

lemma clear_used_from_released: "released_only p s (clear_used_from p shift idx i s)"
proof (induction p shift idx i s rule: clear_used_from.induct)
  case (1 p shift idx i s)
  show ?case
  proof (cases "i \<le> idx")
    case False
    then show ?thesis by (subst clear_used_from.simps) (simp add: released_only_refl)
  next
    case True
    let ?slot = "push_bit shift i mod 2 ^ 32"
    let ?s1 = "s\<lparr>rx_ring := (rx_ring s)(?slot := (rx_ring s ?slot)\<lparr>addr := addr (rx_ring s ?slot) AND NOT (BIT_RX_USED p)\<rparr>)\<rparr>"
    have step: "clear_used_from p shift idx i s =
        clear_used_from p shift idx (i + 1) (emit (Clear_rx_used i) ?s1)"
      using True by (subst clear_used_from.simps) (simp add: Let_def)
    have "released_only p s (emit (Clear_rx_used i) ?s1)"
      by (rule released_only_trans[OF released_only_clear_slot released_only_emit])
    moreover have "released_only p (emit (Clear_rx_used i) ?s1)
        (clear_used_from p shift idx (i + 1) (emit (Clear_rx_used i) ?s1))"
      using "1.IH"[OF True refl refl refl] .
    ultimately show ?thesis
      unfolding step by (rule released_only_trans)
  qed
qed

lemma reclaim_rx_buffer_released: "released_only p s (reclaim_rx_buffer p idx s)"
  by (simp add: reclaim_rx_buffer_def Let_def released_only_refl clear_used_from_released)

lemma reclaim_up_to_released: "released_only p s (snd (reclaim_up_to p n i s))"
proof (induction p n i s rule: reclaim_up_to.induct)
  case (1 p n i s)
  show ?case
  proof (cases "i < n")
    case False
    then show ?thesis by (subst reclaim_up_to.simps) (simp add: released_only_refl)
  next
    case True
    have step: "reclaim_up_to p n i s = reclaim_up_to p n (i + 1) (reclaim_rx_buffer p i s)"
      using True by (subst reclaim_up_to.simps) simp
    show ?thesis
      unfolding step
      by (rule released_only_trans[OF reclaim_rx_buffer_released "1.IH"[OF True]])
  qed
qed

lemma reclaim_to_ring_end_released: "released_only p s (snd (reclaim_to_ring_end p n i s))"
proof (induction p n i s rule: reclaim_to_ring_end.induct)
  case (1 p n i s)
  show ?case
  proof (cases "n < i")
    case False
    then show ?thesis by (subst reclaim_to_ring_end.simps) (simp add: released_only_refl)
  next
    case True
    let ?i2 = "if MACB_RX_RING_SIZE \<le> (i + 1) mod 2 ^ 32 then 0 else (i + 1) mod 2 ^ 32"
    have step: "reclaim_to_ring_end p n i s = reclaim_to_ring_end p n ?i2 (reclaim_rx_buffer p i s)"
      using True by (subst reclaim_to_ring_end.simps) (simp add: Let_def)
    show ?thesis
      unfolding step
      by (rule released_only_trans[OF reclaim_rx_buffer_released "1.IH"[OF True refl refl refl]])
  qed
qed

lemma reclaim_rx_buffers_released:
  "released_only p s ((reclaim_rx_buffers p new_tail s)\<lparr>rx_tail := rx_tail s\<rparr>)"
  and reclaim_rx_buffers_tail: "rx_tail (reclaim_rx_buffers p new_tail s) = new_tail"
proof -
  let ?s1 = "macb_invalidate_ring_desc p True s"
  obtain i1 s2 where l1: "reclaim_to_ring_end p new_tail (rx_tail s) ?s1 = (i1, s2)"
    by (cases "reclaim_to_ring_end p new_tail (rx_tail s) ?s1") auto
  obtain i2 s3 where l2: "reclaim_up_to p new_tail i1 s2 = (i2, s3)"
    by (cases "reclaim_up_to p new_tail i1 s2") auto
  have r: "reclaim_rx_buffers p new_tail s = (macb_flush_ring_desc p True s3)\<lparr>rx_tail := new_tail\<rparr>"
    using l1 l2 by (simp add: reclaim_rx_buffers_def Let_def)
  show "rx_tail (reclaim_rx_buffers p new_tail s) = new_tail"
    by (simp add: r)
  have a: "released_only p s ?s1"
    by (simp add: macb_invalidate_ring_desc_def released_only_emit)
  have b: "released_only p ?s1 s2"
    using reclaim_to_ring_end_released[of p ?s1 new_tail "rx_tail s"] l1 by simp
  have c: "released_only p s2 s3"
    using reclaim_up_to_released[of p s2 new_tail i1] l2 by simp
  have d: "released_only p s3 (macb_flush_ring_desc p True s3)"
    by (simp add: macb_flush_ring_desc_def released_only_emit)
  have e: "released_only p s (macb_flush_ring_desc p True s3)"
    by (rule released_only_trans[OF released_only_trans[OF released_only_trans[OF a b] c] d])
  have t: "rx_tail (macb_flush_ring_desc p True s3) = rx_tail s"
    using released_only_fields(3)[OF e] .
  have "(reclaim_rx_buffers p new_tail s)\<lparr>rx_tail := rx_tail s\<rparr> = macb_flush_ring_desc p True s3"
    unfolding r using t by (cases "macb_flush_ring_desc p True s3") simp
  with e show "released_only p s ((reclaim_rx_buffers p new_tail s)\<lparr>rx_tail := rx_tail s\<rparr>)"
    by simp
qed

lemma line_geometry:
  assumes "ARCH_DMA_MINALIGN p = 2 ^ k" and "4 \<le> k" and "k \<le> 32"
  shows "\<exists>m. desc_per_line p s = 2 ^ m \<and> reclaim_mask p s = 2 ^ m - 1"
proof -
  have p3: "(2::nat) ^ k div 8 = 2 ^ (k - 3)" and p4: "(2::nat) ^ k div 16 = 2 ^ (k - 4)"
    using assms(2) power_diff[of "2::nat" 3 k] power_diff[of "2::nat" 4 k] by simp_all
  have le: "(2::nat) ^ (k - 3) \<le> 2 ^ 32" "(2::nat) ^ (k - 4) \<le> 2 ^ 32"
    by (rule power_increasing; use assms(3) in simp)+
  have wrap: "(d + 2 ^ 32 - 1) mod 2 ^ 32 = d - 1" if "0 < d" "d \<le> 2 ^ 32" for d :: nat
  proof -
    from that obtain e where d: "d = Suc e" by (cases d) auto
    then have e: "e < 2 ^ 32" using that by simp
    have "(d + 2 ^ 32 - 1) mod 2 ^ 32 = (e + 2 ^ 32) mod 2 ^ 32" by (simp add: d)
    also have "\<dots> = e" using e by simp
    finally show ?thesis by (simp add: d)
  qed
  show ?thesis
  proof (cases "dma_64b s")
    case True
    have "desc_per_line p s = 2 ^ (k - 4)"
      using True assms(1) p4 by (simp add: desc_per_line_def DESC_PER_CACHELINE_64_def DMA_DESC_SIZE_def)
    moreover have "reclaim_mask p s = 2 ^ (k - 4) - 1"
      using True assms(1) p4 wrap[of "2 ^ (k - 4)"] le
      by (simp add: reclaim_mask_def DESC_PER_CACHELINE_64_def DMA_DESC_SIZE_def)
    ultimately show ?thesis by blast
  next
    case False
    have "desc_per_line p s = 2 ^ (k - 3)"
      using False assms(1) p3 by (simp add: desc_per_line_def DESC_PER_CACHELINE_32_def sizeof_macb_dma_desc_def)
    moreover have "reclaim_mask p s = 2 ^ (k - 3) - 1"
      using False assms(1) p3 wrap[of "2 ^ (k - 3)"] le
      by (simp add: reclaim_mask_def DESC_PER_CACHELINE_32_def sizeof_macb_dma_desc_def)
    ultimately show ?thesis by blast
  qed
qed

lemma clear_used_from_trace:
  "trace (clear_used_from p shift idx i s) = trace s @ map Clear_rx_used [i..<idx + 1]"
proof (induction p shift idx i s rule: clear_used_from.induct)
  case (1 p shift idx i s)
  show ?case
  proof (cases "i \<le> idx")
    case False
    then show ?thesis by (subst clear_used_from.simps) simp
  next
    case True
    let ?slot = "push_bit shift i mod 2 ^ 32"
    let ?s1 = "s\<lparr>rx_ring := (rx_ring s)(?slot := (rx_ring s ?slot)\<lparr>addr := addr (rx_ring s ?slot) AND NOT (BIT_RX_USED p)\<rparr>)\<rparr>"
    have step: "clear_used_from p shift idx i s =
        clear_used_from p shift idx (i + 1) (emit (Clear_rx_used i) ?s1)"
      using True by (subst clear_used_from.simps) (simp add: Let_def)
    have "[i..<idx + 1] = i # [i + 1..<idx + 1]"
      using True by (simp add: upt_conv_Cons)
    then show ?thesis
      unfolding step using "1.IH"[OF True refl refl refl] by simp
  qed
qed

lemma reclaim_rx_buffer_trace:
  assumes "reclaim_mask p s = 2 ^ m - 1" and "idx < 2 ^ 32"
  shows "trace (reclaim_rx_buffer p idx s) =
     trace s @ (if idx mod 2 ^ m = 2 ^ m - 1 then map Clear_rx_used [line_base (2 ^ m) idx..<idx + 1] else [])"
proof -
  have a: "idx AND (2 ^ m - 1) = idx mod 2 ^ m"
    by (rule nat_and_mask_mod)
  have b: "and_not_u32 idx (2 ^ m - 1) = line_base (2 ^ m) idx"
    by (simp only: and_not_u32_mask[OF assms(2)] line_base_def)
  show ?thesis
    unfolding reclaim_rx_buffer_def Let_def assms(1) a b
    by (simp add: clear_used_from_trace)
qed

lemma upt_split: "a \<le> b \<Longrightarrow> b \<le> c \<Longrightarrow> [a..<b] @ [b..<c] = [a..<c]"
  by (metis le_Suc_ex upt_add_eq_append)

lemma line_base_le: "line_base d i \<le> i"
  by (simp add: line_base_def)

lemma line_base_mono: "i \<le> n \<Longrightarrow> line_base d i \<le> line_base d n"
proof -
  assume "i \<le> n"
  then have "i div d * d \<le> n div d * d"
    by (simp add: div_le_mono)
  then show ?thesis
    by (simp add: line_base_def minus_mod_eq_div_mult)
qed

lemma line_base_Suc:
  "0 < d \<Longrightarrow> line_base d (Suc n) = (if n mod d = d - 1 then Suc n else line_base d n)"
  by (auto simp: line_base_def mod_Suc)

lemma fold_reclaim_released: "released_only p s (fold (reclaim_rx_buffer p) xs s)"
proof (induction xs arbitrary: s)
  case Nil
  show ?case by (simp add: released_only_refl)
next
  case (Cons x xs)
  show ?case
    using released_only_trans[OF reclaim_rx_buffer_released Cons.IH] by simp
qed

lemma fold_reclaim_trace:
  assumes mask: "reclaim_mask p s = 2 ^ m - 1" and le: "i \<le> n" and n: "n \<le> 2 ^ 32"
  shows "trace (fold (reclaim_rx_buffer p) [i..<n] s) =
     trace s @ map Clear_rx_used [line_base (2 ^ m) i..<line_base (2 ^ m) n]"
  using le n
proof (induction n rule: dec_induct)
  case base
  show ?case by simp
next
  case (step n)
  let ?s' = "fold (reclaim_rx_buffer p) [i..<n] s"
  have m': "reclaim_mask p ?s' = 2 ^ m - 1"
    using released_only_fields(4)[OF fold_reclaim_released[of p s "[i..<n]"]] mask by simp
  have t: "trace ?s' = trace s @ map Clear_rx_used [line_base (2 ^ m) i..<line_base (2 ^ m) n]"
    using step by simp
  have f: "fold (reclaim_rx_buffer p) [i..<Suc n] s = reclaim_rx_buffer p n ?s'"
    using step.hyps by simp
  have idx: "n < 2 ^ 32" using step.prems by simp
  show ?case
  proof (cases "n mod 2 ^ m = 2 ^ m - 1")
    case True
    have "line_base (2 ^ m) i \<le> line_base (2 ^ m) n"
      by (rule line_base_mono) (use step.hyps in simp)
    moreover have "line_base (2 ^ m) n \<le> n + 1"
      using line_base_le[of "2 ^ m" n] by simp
    ultimately have app: "[line_base (2 ^ m) i..<line_base (2 ^ m) n] @ [line_base (2 ^ m) n..<n + 1] =
        [line_base (2 ^ m) i..<n + 1]"
      by (rule upt_split)
    have lb: "line_base (2 ^ m) (Suc n) = n + 1"
      using True by (simp add: line_base_Suc)
    have "trace (reclaim_rx_buffer p n ?s') =
        trace ?s' @ map Clear_rx_used [line_base (2 ^ m) n..<n + 1]"
      by (simp only: reclaim_rx_buffer_trace[OF m' idx] True simp_thms if_True)
    then have "trace (fold (reclaim_rx_buffer p) [i..<Suc n] s) =
        trace s @ map Clear_rx_used ([line_base (2 ^ m) i..<line_base (2 ^ m) n] @ [line_base (2 ^ m) n..<n + 1])"
      by (simp only: f t map_append append_assoc)
    then show ?thesis
      by (simp only: app lb)
  next
    case False
    then show ?thesis
      using step.hyps by (simp add: f reclaim_rx_buffer_trace[OF m' idx] t line_base_Suc)
  qed
qed

lemma reclaim_up_to_fold:
  "reclaim_up_to p n i s = (max i n, fold (reclaim_rx_buffer p) [i..<n] s)"
proof (induction p n i s rule: reclaim_up_to.induct)
  case (1 p n i s)
  show ?case
  proof (cases "i < n")
    case False
    then show ?thesis by (subst reclaim_up_to.simps) (simp add: max_def)
  next
    case True
    have step: "reclaim_up_to p n i s = reclaim_up_to p n (i + 1) (reclaim_rx_buffer p i s)"
      using True by (subst reclaim_up_to.simps) simp
    have "[i..<n] = i # [i + 1..<n]" using True by (simp add: upt_conv_Cons)
    then show ?thesis
      unfolding step using "1.IH"[OF True] True by (simp add: max_def)
  qed
qed

lemma reclaim_to_ring_end_fold:
  "i < MACB_RX_RING_SIZE \<Longrightarrow>
   reclaim_to_ring_end p n i s =
     (if n < i then (0, fold (reclaim_rx_buffer p) [i..<MACB_RX_RING_SIZE] s) else (i, s))"
proof (induction p n i s rule: reclaim_to_ring_end.induct)
  case (1 p n i s)
  show ?case
  proof (cases "n < i")
    case False
    then show ?thesis by (subst reclaim_to_ring_end.simps) simp
  next
    case True
    let ?i2 = "if MACB_RX_RING_SIZE \<le> (i + 1) mod 2 ^ 32 then 0 else (i + 1) mod 2 ^ 32"
    have step: "reclaim_to_ring_end p n i s = reclaim_to_ring_end p n ?i2 (reclaim_rx_buffer p i s)"
      using True by (subst reclaim_to_ring_end.simps) (simp add: Let_def)
    have i1: "(i + 1) mod 2 ^ 32 = i + 1"
      using "1.prems" by (simp add: MACB_RX_RING_SIZE_def)
    have cons: "[i..<MACB_RX_RING_SIZE] = i # [i + 1..<MACB_RX_RING_SIZE]"
      using "1.prems" by (simp add: upt_conv_Cons)
    show ?thesis
    proof (cases "MACB_RX_RING_SIZE \<le> i + 1")
      case last: True
      then have "?i2 = 0" using i1 by simp
      moreover have "fold (reclaim_rx_buffer p) [i..<MACB_RX_RING_SIZE] s = reclaim_rx_buffer p i s"
        using last cons by simp
      ultimately show ?thesis
        unfolding step using True
        by (subst reclaim_to_ring_end.simps) simp
    next
      case more: False
      then have i2: "?i2 = i + 1" using i1 by simp
      have "reclaim_to_ring_end p n (i + 1) (reclaim_rx_buffer p i s) =
          (if n < i + 1 then (0, fold (reclaim_rx_buffer p) [i + 1..<MACB_RX_RING_SIZE] (reclaim_rx_buffer p i s))
           else (i + 1, reclaim_rx_buffer p i s))"
        using "1.IH"[OF True refl refl refl] more i2 by simp
      then show ?thesis
        unfolding step i2 using True cons by simp
    qed
  qed
qed

lemma reclaim_rx_buffers_trace:
  assumes mask: "reclaim_mask p s = 2 ^ m - 1"
    and t: "rx_tail s < MACB_RX_RING_SIZE" and n: "new_tail < MACB_RX_RING_SIZE"
  shows "trace (reclaim_rx_buffers p new_tail s) =
     trace s @ [Invalidate_dcache_range (rx_ring_dma s)
                  (ALIGN (rx_ring_dma s + MACB_RX_DMA_DESC_SIZE) (PKTALIGN p))]
       @ map Clear_rx_used (released (2 ^ m) (rx_tail s) new_tail)
       @ [Flush_dcache_range (rx_ring_dma s)
            (rx_ring_dma s + ALIGN MACB_RX_DMA_DESC_SIZE (PKTALIGN p))]"
proof -
  let ?s1 = "macb_invalidate_ring_desc p True s"
  have r1: "released_only p s ?s1"
    by (simp add: macb_invalidate_ring_desc_def released_only_emit)
  have m1: "reclaim_mask p ?s1 = 2 ^ m - 1"
    using released_only_fields(4)[OF r1] mask by simp
  have t1: "trace ?s1 = trace s @ [Invalidate_dcache_range (rx_ring_dma s)
                  (ALIGN (rx_ring_dma s + MACB_RX_DMA_DESC_SIZE) (PKTALIGN p))]"
    by (simp add: macb_invalidate_ring_desc_def)
  have n32: "new_tail \<le> 2 ^ 32" "MACB_RX_RING_SIZE \<le> 2 ^ 32"
    using n by (simp_all add: MACB_RX_RING_SIZE_def)
  show ?thesis
  proof (cases "new_tail < rx_tail s")
    case True
    let ?s2 = "fold (reclaim_rx_buffer p) [rx_tail s..<MACB_RX_RING_SIZE] ?s1"
    let ?s3 = "fold (reclaim_rx_buffer p) [0..<new_tail] ?s2"
    have l1: "reclaim_to_ring_end p new_tail (rx_tail s) ?s1 = (0, ?s2)"
      using reclaim_to_ring_end_fold[OF t, of p new_tail ?s1] True by simp
    have l2: "reclaim_up_to p new_tail 0 ?s2 = (new_tail, ?s3)"
      by (simp add: reclaim_up_to_fold)
    have r2: "released_only p ?s1 ?s2" by (rule fold_reclaim_released)
    have m2: "reclaim_mask p ?s2 = 2 ^ m - 1"
      using released_only_fields(4)[OF r2] m1 by simp
    have r3: "released_only p s ?s3"
      by (rule released_only_trans[OF released_only_trans[OF r1 r2] fold_reclaim_released])
    have tr2: "trace ?s2 = trace ?s1 @ map Clear_rx_used
        [line_base (2 ^ m) (rx_tail s)..<line_base (2 ^ m) MACB_RX_RING_SIZE]"
      using fold_reclaim_trace[OF m1 _ n32(2), of "rx_tail s"] t by simp
    have tr3: "trace ?s3 = trace ?s2 @ map Clear_rx_used [0..<line_base (2 ^ m) new_tail]"
      using fold_reclaim_trace[OF m2 _ n32(1), of 0] by (simp add: line_base_def)
    have "reclaim_rx_buffers p new_tail s = (macb_flush_ring_desc p True ?s3)\<lparr>rx_tail := new_tail\<rparr>"
      using l1 l2 by (simp add: reclaim_rx_buffers_def Let_def)
    then show ?thesis
      using True tr3 tr2 t1 released_only_fields(6)[OF r3]
      by (simp add: macb_flush_ring_desc_def released_def)
  next
    case False
    let ?s3 = "fold (reclaim_rx_buffer p) [rx_tail s..<new_tail] ?s1"
    have l1: "reclaim_to_ring_end p new_tail (rx_tail s) ?s1 = (rx_tail s, ?s1)"
      using reclaim_to_ring_end_fold[OF t, of p new_tail ?s1] False by simp
    have l2: "reclaim_up_to p new_tail (rx_tail s) ?s1 = (max (rx_tail s) new_tail, ?s3)"
      by (simp add: reclaim_up_to_fold)
    have r3: "released_only p s ?s3"
      by (rule released_only_trans[OF r1 fold_reclaim_released])
    have tr3: "trace ?s3 = trace ?s1 @ map Clear_rx_used
        [line_base (2 ^ m) (rx_tail s)..<line_base (2 ^ m) new_tail]"
      using fold_reclaim_trace[OF m1 _ n32(1), of "rx_tail s"] False by simp
    have "reclaim_rx_buffers p new_tail s = (macb_flush_ring_desc p True ?s3)\<lparr>rx_tail := new_tail\<rparr>"
      using l1 l2 by (simp add: reclaim_rx_buffers_def Let_def)
    then show ?thesis
      using False tr3 t1 released_only_fields(6)[OF r3]
      by (simp add: macb_flush_ring_desc_def released_def)
  qed
qed

lemma released_distinct: "distinct (released d t n)"
proof (cases "n < t")
  case True
  then have "line_base d n \<le> line_base d t" by (simp add: line_base_mono)
  then show ?thesis using True by (auto simp: released_def)
next
  case False
  then show ?thesis by (simp add: released_def)
qed

lemma released_range:
  assumes "j \<in> set (released d t n)"
  shows "(t \<le> n \<longrightarrow> line_base d t \<le> j \<and> j < n)
     \<and> (n < t \<longrightarrow> j < n \<or> (line_base d t \<le> j \<and> j < MACB_RX_RING_SIZE))"
proof -
  have a: "line_base d n \<le> n" "line_base d MACB_RX_RING_SIZE \<le> MACB_RX_RING_SIZE"
    by (rule line_base_le)+
  show ?thesis
    using assms a by (auto simp: released_def split: if_splits)
qed

lemma reclaim_slot: "i < 2 ^ 32 \<Longrightarrow> push_bit (reclaim_shift s) i mod 2 ^ 32 = rx_slot s i"
  by (simp add: reclaim_shift_def rx_slot_def push_bit_eq_mult mult.commute)

lemma released_only_keeps_clear:
  assumes "released_only p s s'" and "addr (rx_ring s j) AND BIT_RX_USED p = 0"
  shows "addr (rx_ring s' j) AND BIT_RX_USED p = 0"
proof -
  from assms(1) have "addr (rx_ring s' j) = addr (rx_ring s j)
      \<or> addr (rx_ring s' j) = addr (rx_ring s j) AND NOT (BIT_RX_USED p)"
    by (simp add: released_only_def)
  then show ?thesis
    using assms(2) by (auto simp: and.assoc)
qed

lemma clear_used_from_cleared:
  "i \<le> j \<Longrightarrow> j \<le> idx \<Longrightarrow>
   addr (rx_ring (clear_used_from p shift idx i s) (push_bit shift j mod 2 ^ 32)) AND BIT_RX_USED p = 0"
proof (induction p shift idx i s rule: clear_used_from.induct)
  case (1 p shift idx i s)
  from "1.prems" have True: "i \<le> idx" by simp
  let ?slot = "push_bit shift i mod 2 ^ 32"
  let ?s1 = "s\<lparr>rx_ring := (rx_ring s)(?slot := (rx_ring s ?slot)\<lparr>addr := addr (rx_ring s ?slot) AND NOT (BIT_RX_USED p)\<rparr>)\<rparr>"
  have step: "clear_used_from p shift idx i s =
      clear_used_from p shift idx (i + 1) (emit (Clear_rx_used i) ?s1)"
    using True by (subst clear_used_from.simps) (simp add: Let_def)
  show ?case
  proof (cases "j = i")
    case True
    have "addr (rx_ring (emit (Clear_rx_used i) ?s1) ?slot) AND BIT_RX_USED p = 0"
      by (simp add: and.assoc)
    then show ?thesis
      unfolding step True by (rule released_only_keeps_clear[OF clear_used_from_released])
  next
    case False
    with "1.prems" have "i + 1 \<le> j" by simp
    then show ?thesis
      unfolding step using "1.IH"[OF \<open>i \<le> idx\<close> refl refl refl] "1.prems"(2) by simp
  qed
qed

lemma clear_used_from_other:
  "\<forall>j. i \<le> j \<and> j \<le> idx \<longrightarrow> slot \<noteq> push_bit shift j mod 2 ^ 32 \<Longrightarrow>
   rx_ring (clear_used_from p shift idx i s) slot = rx_ring s slot"
proof (induction p shift idx i s rule: clear_used_from.induct)
  case (1 p shift idx i s)
  show ?case
  proof (cases "i \<le> idx")
    case False
    then show ?thesis by (subst clear_used_from.simps) simp
  next
    case True
    let ?slot = "push_bit shift i mod 2 ^ 32"
    let ?s1 = "s\<lparr>rx_ring := (rx_ring s)(?slot := (rx_ring s ?slot)\<lparr>addr := addr (rx_ring s ?slot) AND NOT (BIT_RX_USED p)\<rparr>)\<rparr>"
    have step: "clear_used_from p shift idx i s =
        clear_used_from p shift idx (i + 1) (emit (Clear_rx_used i) ?s1)"
      using True by (subst clear_used_from.simps) (simp add: Let_def)
    have ne: "slot \<noteq> ?slot" using "1.prems" True by simp
    have "rx_ring (clear_used_from p shift idx (i + 1) (emit (Clear_rx_used i) ?s1)) slot =
        rx_ring (emit (Clear_rx_used i) ?s1) slot"
      using "1.IH"[OF True refl refl refl] "1.prems" by simp
    then show ?thesis
      unfolding step using ne by simp
  qed
qed

lemma same_line_iff:
  assumes "0 < d" and "idx mod d = d - 1"
  shows "i div d = idx div d \<longleftrightarrow> line_base d idx \<le> i \<and> i \<le> idx"
proof -
  have idx: "idx = idx div d * d + (d - 1)"
    using assms(2) div_mult_mod_eq[of idx d] by simp
  have lb: "line_base d idx = idx div d * d"
    by (simp add: line_base_def minus_mod_eq_div_mult)
  show ?thesis
  proof
    assume e: "i div d = idx div d"
    have "i = i div d * d + i mod d" by simp
    moreover have "i mod d \<le> d - 1" using assms(1) by (simp add: Suc_leI le_diff_conv2 mod_less_divisor less_imp_le)
    ultimately have "idx div d * d \<le> i" "i \<le> idx div d * d + (d - 1)"
      using e by (metis le_add1, metis add_left_mono)
    then show "line_base d idx \<le> i \<and> i \<le> idx"
      using idx lb by simp
  next
    assume r: "line_base d idx \<le> i \<and> i \<le> idx"
    then have "idx div d * d \<le> i" using lb by simp
    moreover have "i < idx div d * d + d" using r idx assms(1) by linarith
    ultimately have "idx div d * d \<le> i" "i < idx div d * d + d" by simp_all
    then show "i div d = idx div d"
      using assms(1) by (metis add.commute div_nat_eqI mult.commute mult_Suc)
  qed
qed

lemma reclaim_rx_buffer_effect:
  assumes mask: "reclaim_mask p s = 2 ^ m - 1" and idx: "idx < MACB_RX_RING_SIZE"
  shows "(idx AND reclaim_mask p s = reclaim_mask p s \<longleftrightarrow> idx mod 2 ^ m = 2 ^ m - 1)
    \<and> (idx mod 2 ^ m \<noteq> 2 ^ m - 1 \<longrightarrow> reclaim_rx_buffer p idx s = s)
    \<and> (idx mod 2 ^ m = 2 ^ m - 1 \<longrightarrow>
         (\<forall>i. i div 2 ^ m = idx div 2 ^ m \<longrightarrow>
              addr (rx_ring (reclaim_rx_buffer p idx s) (rx_slot s i)) AND BIT_RX_USED p = 0)
         \<and> (\<forall>slot. (\<forall>i. i div 2 ^ m = idx div 2 ^ m \<longrightarrow> slot \<noteq> rx_slot s i) \<longrightarrow>
              rx_ring (reclaim_rx_buffer p idx s) slot = rx_ring s slot))"
proof -
  have i32: "idx < 2 ^ 32" using idx by (simp add: MACB_RX_RING_SIZE_def)
  have a: "idx AND (2 ^ m - 1) = idx mod 2 ^ m"
    by (rule nat_and_mask_mod)
  have b: "and_not_u32 idx (2 ^ m - 1) = line_base (2 ^ m) idx"
    by (simp only: and_not_u32_mask[OF i32] line_base_def)
  have c1: "idx AND reclaim_mask p s = reclaim_mask p s \<longleftrightarrow> idx mod 2 ^ m = 2 ^ m - 1"
    unfolding mask a ..
  have c2: "reclaim_rx_buffer p idx s = s" if "idx mod 2 ^ m \<noteq> 2 ^ m - 1"
    unfolding reclaim_rx_buffer_def Let_def mask a using that by simp
  have r: "reclaim_rx_buffer p idx s =
      clear_used_from p (reclaim_shift s) idx (line_base (2 ^ m) idx) s" if "idx mod 2 ^ m = 2 ^ m - 1"
    unfolding reclaim_rx_buffer_def Let_def mask a b using that by simp
  have c3: "addr (rx_ring (reclaim_rx_buffer p idx s) (rx_slot s i)) AND BIT_RX_USED p = 0"
    if last: "idx mod 2 ^ m = 2 ^ m - 1" and line: "i div 2 ^ m = idx div 2 ^ m" for i
  proof -
    from same_line_iff[of "2 ^ m" idx i] last line
    have rng: "line_base (2 ^ m) idx \<le> i" "i \<le> idx" by simp_all
    then have "i < 2 ^ 32" using i32 by simp
    then have "push_bit (reclaim_shift s) i mod 2 ^ 32 = rx_slot s i" by (rule reclaim_slot)
    with clear_used_from_cleared[OF rng, of p "reclaim_shift s" s] show ?thesis
      by (simp add: r[OF last])
  qed
  have c4: "rx_ring (reclaim_rx_buffer p idx s) slot = rx_ring s slot"
    if last: "idx mod 2 ^ m = 2 ^ m - 1"
      and out: "\<forall>i. i div 2 ^ m = idx div 2 ^ m \<longrightarrow> slot \<noteq> rx_slot s i" for slot
  proof -
    have "\<forall>j. line_base (2 ^ m) idx \<le> j \<and> j \<le> idx \<longrightarrow> slot \<noteq> push_bit (reclaim_shift s) j mod 2 ^ 32"
    proof (intro allI impI)
      fix j assume j: "line_base (2 ^ m) idx \<le> j \<and> j \<le> idx"
      then have "j div 2 ^ m = idx div 2 ^ m"
        using same_line_iff[of "2 ^ m" idx j] last by simp
      moreover have "j < 2 ^ 32" using j i32 by simp
      then have "push_bit (reclaim_shift s) j mod 2 ^ 32 = rx_slot s j" by (rule reclaim_slot)
      ultimately show "slot \<noteq> push_bit (reclaim_shift s) j mod 2 ^ 32"
        using out by simp
    qed
    then show ?thesis
      by (simp add: r[OF last] clear_used_from_other)
  qed
  show ?thesis
    using c1 c2 c3 c4 by blast
qed

text \<open>
  Claim C2, as amended. Let the cache line be a power of two of at least 16 bytes, so that
  a line holds \<open>desc_per_line\<close> descriptors (the line size divided by 8, or by 16 with
  64-bit addressing), and let all indices be inside the ring. \<^verbatim>\<open>reclaim_rx_buffer\<close>
  clears ownership bits only when \<open>idx\<close> is the last index of its line (which is what
  the test \<^verbatim>\<open>(idx & mask) != mask\<close> decides): for any other index it leaves the
  state as it is, and for the last index of a line it clears the bit of every descriptor
  of that line and touches no other slot. \<^verbatim>\<open>reclaim_rx_buffers\<close> invalidates the ring,
  releases the descriptors \<open>released\<close>, and then flushes the whole ring once, on every
  call and whatever indices it walked. In one call no descriptor is released twice, and
  every descriptor released lies below the new tail, or, when the old tail is above the
  new tail, below the new tail or between the start of the old tail's line and the end of
  the ring.
\<close>

theorem deferred_reclaim:
  assumes align: "ARCH_DMA_MINALIGN p = 2 ^ k" "4 \<le> k" "k \<le> 32"
    and idx: "idx < MACB_RX_RING_SIZE"
    and t: "rx_tail s < MACB_RX_RING_SIZE" and n: "new_tail < MACB_RX_RING_SIZE"
  shows "(idx AND reclaim_mask p s = reclaim_mask p s \<longleftrightarrow>
            idx mod desc_per_line p s = desc_per_line p s - 1)
    \<and> (idx mod desc_per_line p s \<noteq> desc_per_line p s - 1 \<longrightarrow> reclaim_rx_buffer p idx s = s)
    \<and> (idx mod desc_per_line p s = desc_per_line p s - 1 \<longrightarrow>
         (\<forall>i. i div desc_per_line p s = idx div desc_per_line p s \<longrightarrow>
              addr (rx_ring (reclaim_rx_buffer p idx s) (rx_slot s i)) AND BIT_RX_USED p = 0)
         \<and> (\<forall>slot. (\<forall>i. i div desc_per_line p s = idx div desc_per_line p s \<longrightarrow> slot \<noteq> rx_slot s i) \<longrightarrow>
              rx_ring (reclaim_rx_buffer p idx s) slot = rx_ring s slot))
    \<and> trace (reclaim_rx_buffers p new_tail s) =
         trace s @ [Invalidate_dcache_range (rx_ring_dma s)
                      (ALIGN (rx_ring_dma s + MACB_RX_DMA_DESC_SIZE) (PKTALIGN p))]
           @ map Clear_rx_used (released (desc_per_line p s) (rx_tail s) new_tail)
           @ [Flush_dcache_range (rx_ring_dma s)
                (rx_ring_dma s + ALIGN MACB_RX_DMA_DESC_SIZE (PKTALIGN p))]
    \<and> distinct (released (desc_per_line p s) (rx_tail s) new_tail)
    \<and> (\<forall>j \<in> set (released (desc_per_line p s) (rx_tail s) new_tail).
          (rx_tail s \<le> new_tail \<longrightarrow> line_base (desc_per_line p s) (rx_tail s) \<le> j \<and> j < new_tail)
          \<and> (new_tail < rx_tail s \<longrightarrow>
               j < new_tail \<or> (line_base (desc_per_line p s) (rx_tail s) \<le> j \<and> j < MACB_RX_RING_SIZE)))"
proof -
  from line_geometry[OF align, of s] obtain m
    where d: "desc_per_line p s = 2 ^ m" and mask: "reclaim_mask p s = 2 ^ m - 1"
    by blast
  note a = reclaim_rx_buffer_effect[OF mask idx]
  note b = reclaim_rx_buffers_trace[OF mask t n]
  have c: "distinct (released (2 ^ m) (rx_tail s) new_tail)"
    by (rule released_distinct)
  have e: "\<forall>j \<in> set (released (2 ^ m) (rx_tail s) new_tail).
          (rx_tail s \<le> new_tail \<longrightarrow> line_base (2 ^ m) (rx_tail s) \<le> j \<and> j < new_tail)
          \<and> (new_tail < rx_tail s \<longrightarrow>
               j < new_tail \<or> (line_base (2 ^ m) (rx_tail s) \<le> j \<and> j < MACB_RX_RING_SIZE))"
    using released_range by blast
  show ?thesis
    unfolding d using a b c e by blast
qed

lemma emit_dma_fields [simp]:
  "rx_ring_dma (emit e s) = rx_ring_dma s" "tx_ring_dma (emit e s) = tx_ring_dma s"
  "rx_buffer_dma (emit e s) = rx_buffer_dma s" "dummy_desc (emit e s) = dummy_desc s"
  "dummy_desc_dma (emit e s) = dummy_desc_dma s" "tx_tail (emit e s) = tx_tail s"
  by (simp_all add: emit_def)

lemma cadence_line: "desc_per_line cadence rx_dev_used = 8" "reclaim_mask cadence rx_dev_used = 7"
  "rx_slot rx_dev_used i = i" "rx_tail rx_dev_used = 0" "trace rx_dev_used = []"
  "rx_ring_dma rx_dev_used = 0x2000" "rx_ring rx_dev_used = used_ring"
  by (simp_all add: desc_per_line_def reclaim_mask_def rx_slot_def rx_dev_used_def dev0_def
      default_gem_config_def dma_64b_def HW_DMA_CAP_32B_def HW_DMA_CAP_64B_def
      DESC_PER_CACHELINE_32_def sizeof_macb_dma_desc_def cadence_def)

theorem deferred_reclaim_witness:
  "ARCH_DMA_MINALIGN cadence = 2 ^ 6
   \<and> reclaim_rx_buffer cadence 6 rx_dev_used = rx_dev_used
   \<and> addr (rx_ring (reclaim_rx_buffer cadence 7 rx_dev_used) 3) AND BIT_RX_USED cadence = 0
   \<and> trace (reclaim_rx_buffers cadence 9 rx_dev_used) =
       [Invalidate_dcache_range 0x2000 0x2200] @ map Clear_rx_used [0..<8] @
       [Flush_dcache_range 0x2000 0x2200]"
proof -
  have h1: "ARCH_DMA_MINALIGN cadence = 2 ^ 6" by (simp add: cadence_def)
  have h2: "(4::nat) \<le> 6" "(6::nat) \<le> 32" by simp_all
  have h3: "6 < MACB_RX_RING_SIZE" "7 < MACB_RX_RING_SIZE" "9 < MACB_RX_RING_SIZE"
    "rx_tail rx_dev_used < MACB_RX_RING_SIZE"
    by (simp_all add: MACB_RX_RING_SIZE_def cadence_line)
  have al: "ALIGN (0x2000 + MACB_RX_DMA_DESC_SIZE) (PKTALIGN cadence) = 0x2200"
    "0x2000 + ALIGN MACB_RX_DMA_DESC_SIZE (PKTALIGN cadence) = 0x2200"
    by (simp_all add: ALIGN_def MACB_RX_DMA_DESC_SIZE_def DMA_DESC_BYTES_def DMA_DESC_SIZE_def
        MACB_RX_RING_SIZE_def cadence_def)
  have rel: "released 8 0 9 = [0..<8]"
    by (simp add: released_def line_base_def)
  from deferred_reclaim[OF h1 h2 h3(1) h3(4) h3(3)]
  have a: "reclaim_rx_buffer cadence 6 rx_dev_used = rx_dev_used"
    by (simp add: cadence_line)
  from deferred_reclaim[OF h1 h2 h3(2) h3(4) h3(3)]
  have b: "addr (rx_ring (reclaim_rx_buffer cadence 7 rx_dev_used) 3) AND BIT_RX_USED cadence = 0"
    and c: "trace (reclaim_rx_buffers cadence 9 rx_dev_used) =
       [Invalidate_dcache_range 0x2000 0x2200] @ map Clear_rx_used [0..<8] @
       [Flush_dcache_range 0x2000 0x2200]"
    by (simp_all add: cadence_line al rel)
  from h1 a b c show ?thesis by blast
qed

text \<open>
  Claim C2 as stated fails on the flush: moving the tail from 0 to 1 passes index 0,
  which is not the last index of its line; no ownership bit is cleared, and the ring,
  with the line of descriptor 0 at its start, is flushed all the same.
\<close>

theorem flush_without_release_counterexample:
  "(0::nat) AND reclaim_mask cadence rx_dev_used \<noteq> reclaim_mask cadence rx_dev_used
   \<and> rx_tail rx_dev_used = 0
   \<and> rx_ring_dma rx_dev_used = 0x2000
   \<and> rx_ring (reclaim_rx_buffers cadence 1 rx_dev_used) = rx_ring rx_dev_used
   \<and> trace (reclaim_rx_buffers cadence 1 rx_dev_used) =
       [Invalidate_dcache_range 0x2000 0x2200, Flush_dcache_range 0x2000 0x2200]"
proof -
  have al: "ALIGN (0x2000 + MACB_RX_DMA_DESC_SIZE) (PKTALIGN cadence) = 0x2200"
    "0x2000 + ALIGN MACB_RX_DMA_DESC_SIZE (PKTALIGN cadence) = 0x2200"
    by (simp_all add: ALIGN_def MACB_RX_DMA_DESC_SIZE_def DMA_DESC_BYTES_def DMA_DESC_SIZE_def
        MACB_RX_RING_SIZE_def cadence_def)
  have r0: "reclaim_rx_buffer cadence 0 s = s" if "reclaim_mask cadence s = 7" for s
    using that by (simp add: reclaim_rx_buffer_def Let_def)
  let ?s1 = "macb_invalidate_ring_desc cadence True rx_dev_used"
  have m1: "reclaim_mask cadence ?s1 = 7"
    using cadence_line(2) by (simp add: macb_invalidate_ring_desc_def reclaim_mask_def)
  have "reclaim_rx_buffers cadence 1 rx_dev_used =
      (macb_flush_ring_desc cadence True ?s1)\<lparr>rx_tail := 1\<rparr>"
    by (simp add: reclaim_rx_buffers_def Let_def cadence_line reclaim_to_ring_end.simps
        reclaim_up_to.simps r0[OF m1])
  then show ?thesis
    by (simp add: cadence_line al macb_flush_ring_desc_def macb_invalidate_ring_desc_def)
qed

lemma and_not_disjoint:
  fixes w u :: u32
  assumes "w AND u = 0"
  shows "w AND NOT u = w"
proof -
  have "w = w AND (u OR NOT u)" by simp
  also have "\<dots> = (w AND u) OR (w AND NOT u)" by (simp only: bit.conj_disj_distrib)
  also have "\<dots> = w AND NOT u" using assms by simp
  finally show ?thesis by simp
qed

lemma released_only_addr:
  assumes "released_only p s s'"
  shows "ctrl (rx_ring s' j) = ctrl (rx_ring s j)"
    and "addr (rx_ring s' j) AND NOT (BIT_RX_USED p) = addr (rx_ring s j) AND NOT (BIT_RX_USED p)"
    and "BIT_RX_WRAP p AND BIT_RX_USED p = 0 \<Longrightarrow>
         addr (rx_ring s' j) AND BIT_RX_WRAP p = addr (rx_ring s j) AND BIT_RX_WRAP p"
proof -
  from assms have d: "addr (rx_ring s' j) = addr (rx_ring s j)
      \<or> addr (rx_ring s' j) = addr (rx_ring s j) AND NOT (BIT_RX_USED p)"
    and c: "ctrl (rx_ring s' j) = ctrl (rx_ring s j)"
    by (simp_all add: released_only_def)
  show "ctrl (rx_ring s' j) = ctrl (rx_ring s j)" by (rule c)
  show e: "addr (rx_ring s' j) AND NOT (BIT_RX_USED p) = addr (rx_ring s j) AND NOT (BIT_RX_USED p)"
    using d by (auto simp: and.assoc)
  assume w: "BIT_RX_WRAP p AND BIT_RX_USED p = 0"
  have k: "NOT (BIT_RX_USED p) AND BIT_RX_WRAP p = BIT_RX_WRAP p"
    using and_not_disjoint[OF w] by (simp add: and.commute)
  have "addr (rx_ring s' j) AND BIT_RX_WRAP p =
      (addr (rx_ring s' j) AND NOT (BIT_RX_USED p)) AND BIT_RX_WRAP p"
    by (simp add: and.assoc k)
  also have "\<dots> = (addr (rx_ring s j) AND NOT (BIT_RX_USED p)) AND BIT_RX_WRAP p"
    by (simp only: e)
  also have "\<dots> = addr (rx_ring s j) AND BIT_RX_WRAP p"
    by (simp add: and.assoc k)
  finally show "addr (rx_ring s' j) AND BIT_RX_WRAP p = addr (rx_ring s j) AND BIT_RX_WRAP p" .
qed

text \<open>
  Claim C10. \<^verbatim>\<open>reclaim_rx_buffer\<close> and \<^verbatim>\<open>reclaim_rx_buffers\<close> change nothing of a
  descriptor but the ownership bit of its address word: the control word and the address
  word outside that bit are as before in every slot, and so is the wrap marker when it is
  a bit of its own. Of the fields of the device, \<^verbatim>\<open>reclaim_rx_buffers\<close> changes
  \<open>rx_tail\<close> alone, which becomes the new tail (the trace of cache operations aside), and
  \<^verbatim>\<open>reclaim_rx_buffer\<close> changes none.
\<close>

theorem reclaim_changes_only_used_bit:
  "rx_tail (reclaim_rx_buffers p new_tail s) = new_tail
   \<and> (reclaim_rx_buffers p new_tail s)\<lparr>rx_tail := rx_tail s, rx_ring := rx_ring s, trace := trace s\<rparr> = s
   \<and> (reclaim_rx_buffer p idx s)\<lparr>rx_ring := rx_ring s, trace := trace s\<rparr> = s
   \<and> (\<forall>j. ctrl (rx_ring (reclaim_rx_buffers p new_tail s) j) = ctrl (rx_ring s j)
        \<and> addr (rx_ring (reclaim_rx_buffers p new_tail s) j) AND NOT (BIT_RX_USED p) =
            addr (rx_ring s j) AND NOT (BIT_RX_USED p)
        \<and> (BIT_RX_WRAP p AND BIT_RX_USED p = 0 \<longrightarrow>
             addr (rx_ring (reclaim_rx_buffers p new_tail s) j) AND BIT_RX_WRAP p =
               addr (rx_ring s j) AND BIT_RX_WRAP p)
        \<and> ctrl (rx_ring (reclaim_rx_buffer p idx s) j) = ctrl (rx_ring s j)
        \<and> addr (rx_ring (reclaim_rx_buffer p idx s) j) AND NOT (BIT_RX_USED p) =
            addr (rx_ring s j) AND NOT (BIT_RX_USED p)
        \<and> (BIT_RX_WRAP p AND BIT_RX_USED p = 0 \<longrightarrow>
             addr (rx_ring (reclaim_rx_buffer p idx s) j) AND BIT_RX_WRAP p =
               addr (rx_ring s j) AND BIT_RX_WRAP p))"
proof -
  let ?R = "reclaim_rx_buffers p new_tail s"
  have r: "released_only p s (?R\<lparr>rx_tail := rx_tail s\<rparr>)"
    by (rule reclaim_rx_buffers_released)
  have q: "released_only p s (reclaim_rx_buffer p idx s)"
    by (rule reclaim_rx_buffer_released)
  have 1: "rx_tail ?R = new_tail" by (rule reclaim_rx_buffers_tail)
  have 2: "?R\<lparr>rx_tail := rx_tail s, rx_ring := rx_ring s, trace := trace s\<rparr> = s"
    using r by (simp add: released_only_def)
  have 3: "(reclaim_rx_buffer p idx s)\<lparr>rx_ring := rx_ring s, trace := trace s\<rparr> = s"
    using q by (simp add: released_only_def)
  have ring: "rx_ring (?R\<lparr>rx_tail := rx_tail s\<rparr>) = rx_ring ?R" by simp
  show ?thesis
    using 1 2 3 released_only_addr[OF r] released_only_addr[OF q] unfolding ring by blast
qed

theorem reclaim_changes_only_used_bit_witness:
  "BIT_RX_WRAP cadence AND BIT_RX_USED cadence = 0
   \<and> addr (rx_ring (reclaim_rx_buffers cadence 9 rx_dev_used) 3) AND BIT_RX_WRAP cadence = 2
   \<and> rx_tail (reclaim_rx_buffers cadence 9 rx_dev_used) = 9"
proof -
  have h: "BIT_RX_WRAP cadence AND BIT_RX_USED cadence = 0"
    by (simp add: cadence_def)
  have v: "BIT_RX_WRAP cadence = 2" by (simp add: cadence_def)
  from reclaim_changes_only_used_bit[of cadence 9 rx_dev_used 7] h
  have "addr (rx_ring (reclaim_rx_buffers cadence 9 rx_dev_used) 3) AND BIT_RX_WRAP cadence =
         addr (rx_ring rx_dev_used 3) AND BIT_RX_WRAP cadence"
    and "rx_tail (reclaim_rx_buffers cadence 9 rx_dev_used) = 9"
    by blast+
  then show ?thesis
    using h by (simp add: cadence_line used_ring_def v)
qed

section \<open>Receive\<close>

lemma memcpy_Some:
  assumes "memcpy dst d src so n = Some b"
  shows "d + n \<le> length dst" "so + n \<le> length src"
    "b = take d dst @ take n (drop so src) @ drop (d + n) dst" "length b = length dst"
  using assms by (auto simp: memcpy_def split: if_splits)


lemma dma_frame_wrap:
  assumes start: "start \<le> length pool" and tl: "len - (length pool - start) \<le> length pool"
    and hl: "length pool - start \<le> len" and pos: "start < length pool"
  shows "dma_frame pool start len = drop start pool @ take (len - (length pool - start)) pool"
proof (rule nth_equalityI)
  show "length (dma_frame pool start len) =
      length (drop start pool @ take (len - (length pool - start)) pool)"
    using assms by (simp add: dma_frame_def)
next
  fix k assume "k < length (dma_frame pool start len)"
  then have k: "k < len" by (simp add: dma_frame_def)
  show "dma_frame pool start len ! k =
      (drop start pool @ take (len - (length pool - start)) pool) ! k"
  proof (cases "k < length pool - start")
    case True
    then have "(start + k) mod length pool = start + k" by simp
    then show ?thesis
      using True k by (simp add: dma_frame_def nth_append)
  next
    case False
    then have ge: "length pool - start \<le> k" by simp
    have eq: "start + k = length pool + (k - (length pool - start))"
      using ge start by simp
    have lt: "k - (length pool - start) < length pool"
      using k tl hl by linarith
    have "(start + k) mod length pool = k - (length pool - start)"
      unfolding eq using lt by simp
    then show ?thesis
      using False k ge by (simp add: dma_frame_def nth_append)
  qed
qed


lemma invalidate_rx_buffer_fields [simp]:
  "rx_tail (macb_invalidate_rx_buffer p s) = rx_tail s"
  "wrapped (macb_invalidate_rx_buffer p s) = wrapped s"
  "rx_buffer (macb_invalidate_rx_buffer p s) = rx_buffer s"
  "rx_buffer_size (macb_invalidate_rx_buffer p s) = rx_buffer_size s"
  "net_rx_packets0 (macb_invalidate_rx_buffer p s) = net_rx_packets0 s"
  "dma_64b (macb_invalidate_rx_buffer p s) = dma_64b s"
  "config (macb_invalidate_rx_buffer p s) = config s"
  by (simp_all add: macb_invalidate_rx_buffer_def)

lemma wrap_sub:
  fixes M :: nat
  assumes "b \<le> a" and "a - b < M"
  shows "(a + M - b) mod M = a - b"
proof -
  from assms(1) obtain c where a: "a = b + c" by (metis le_Suc_ex)
  have c: "c < M" using assms(2) a by simp
  have "(a + M - b) mod M = (c + M) mod M" by (simp add: a)
  also have "\<dots> = c" using c by simp
  finally show ?thesis by (simp add: a)
qed

lemma wrap_sub_below:
  fixes M :: nat
  assumes "a < b" and "b \<le> M"
  shows "(a + M - b) mod M = a + M - b"
proof -
  have "a + M - b < M" using assms by linarith
  then show ?thesis by (rule mod_less)
qed

lemma taillen_generic:
  fixes M :: nat
  assumes "(len + M - H) mod M \<le> L" and "L + L < M" and "H \<le> L" and "len < M"
  shows "H \<le> len" and "(len + M - H) mod M = len - H"
proof -
  show h: "H \<le> len"
  proof (rule ccontr)
    assume "\<not> H \<le> len"
    then have lt: "len < H" by simp
    have "H \<le> M" using assms(2,3) by linarith
    from wrap_sub_below[OF lt this] assms(1) have "len + M - H \<le> L" by (simp only:)
    with assms(2,3) lt show False by linarith
  qed
  have "len - H < M" using assms(4) by linarith
  from wrap_sub[OF h this] show "(len + M - H) mod M = len - H" .
qed

lemma taillen_eq:
  assumes "taillen len H \<le> L" and "L < 2 ^ 31" and "H \<le> L" and "len < 2 ^ 32"
  shows "H \<le> len" and "taillen len H = len - H"
proof -
  have LL: "L + L < 2 ^ 32" using assms(2) by simp
  from taillen_generic[OF assms(1)[unfolded taillen_def] LL assms(3,4)]
  show "H \<le> len" and "taillen len H = len - H"
    unfolding taillen_def by blast+
qed

lemma headlen_eq:
  assumes pool: "length (rx_buffer s) = rx_buffer_size s * MACB_RX_RING_SIZE"
    and small: "length (rx_buffer s) < 2 ^ 31"
    and tail: "rx_tail s < MACB_RX_RING_SIZE"
  shows "headlen s = rx_buffer_size s * (MACB_RX_RING_SIZE - rx_tail s)"
    and "rx_buffer_size s * rx_tail s + headlen s = length (rx_buffer s)"
    and "headlen s \<le> length (rx_buffer s)"
proof -
  have t: "rx_tail s \<le> MACB_RX_RING_SIZE" using tail by simp
  have "MACB_RX_RING_SIZE - rx_tail s < 2 ^ 32"
    by (simp add: MACB_RX_RING_SIZE_def)
  from wrap_sub[OF t this]
  have a: "(MACB_RX_RING_SIZE + 2 ^ 32 - rx_tail s) mod 2 ^ 32 = MACB_RX_RING_SIZE - rx_tail s" .
  have b: "rx_buffer_size s * (MACB_RX_RING_SIZE - rx_tail s) \<le> rx_buffer_size s * MACB_RX_RING_SIZE"
    by simp
  then have c: "rx_buffer_size s * (MACB_RX_RING_SIZE - rx_tail s) \<le> length (rx_buffer s)"
    using pool by simp
  have "rx_buffer_size s * (MACB_RX_RING_SIZE - rx_tail s) < 2 ^ 32"
    using c small by simp
  then have "(rx_buffer_size s * (MACB_RX_RING_SIZE - rx_tail s)) mod 2 ^ 32 =
      rx_buffer_size s * (MACB_RX_RING_SIZE - rx_tail s)"
    by (rule mod_less)
  then show h: "headlen s = rx_buffer_size s * (MACB_RX_RING_SIZE - rx_tail s)"
    unfolding headlen_def a .
  show "headlen s \<le> length (rx_buffer s)" using c h by simp
  have "rx_buffer_size s * rx_tail s + rx_buffer_size s * (MACB_RX_RING_SIZE - rx_tail s) =
      rx_buffer_size s * (rx_tail s + (MACB_RX_RING_SIZE - rx_tail s))"
    by (simp only: distrib_left)
  also have "\<dots> = rx_buffer_size s * MACB_RX_RING_SIZE" using tail by simp
  finally show "rx_buffer_size s * rx_tail s + headlen s = length (rx_buffer s)"
    using pool h by simp
qed

lemma frmlen_bound: "unat (status AND RXBUF_FRMLEN_MASK) \<le> 4095"
proof -
  have "status AND RXBUF_FRMLEN_MASK \<le> RXBUF_FRMLEN_MASK"
    by (rule word_and_le1)
  then have "unat (status AND RXBUF_FRMLEN_MASK) \<le> unat RXBUF_FRMLEN_MASK"
    by (simp add: word_le_nat_alt)
  moreover have "unat RXBUF_FRMLEN_MASK = 4095" by (simp add: RXBUF_FRMLEN_MASK_def)
  ultimately show ?thesis by linarith
qed

lemma recv_eof_wrapped:
  assumes "recv_eof p status n flag s = Returned (Received len pk) s'" and "wrapped s"
  shows "\<exists>b1 b2. memcpy (net_rx_packets0 s) 0 (rx_buffer s) (rx_buffer_size s * rx_tail s) (headlen s) = Some b1
     \<and> memcpy b1 (headlen s) (rx_buffer s) 0 (taillen (unat (status AND RXBUF_FRMLEN_MASK)) (headlen s)) = Some b2
     \<and> len = unat (status AND RXBUF_FRMLEN_MASK) \<and> pk = Net_rx_packets0
     \<and> net_rx_packets0 s' = b2 \<and> rx_tail s' = rx_tail s \<and> wrapped s' = wrapped s
     \<and> rx_buffer s' = rx_buffer s \<and> rx_buffer_size s' = rx_buffer_size s"
proof -
  have hd: "headlen (macb_invalidate_rx_buffer p s) = headlen s"
    by (simp add: headlen_def)
  show ?thesis
    using assms unfolding recv_eof_def Let_def
    by (auto simp: hd split: option.splits)
qed

lemma recv_eof_direct:
  assumes "recv_eof p status n flag s = Returned (Received len pk) s'" and "\<not> wrapped s"
  shows "len = unat (status AND RXBUF_FRMLEN_MASK) \<and> pk = Rx_buffer_at (rx_buffer_size s * rx_tail s)
     \<and> net_rx_packets0 s' = net_rx_packets0 s \<and> rx_tail s' = rx_tail s \<and> wrapped s' = wrapped s
     \<and> rx_buffer s' = rx_buffer s \<and> rx_buffer_size s' = rx_buffer_size s"
  using assms unfolding recv_eof_def Let_def by auto

lemma recv_eof_received:
  assumes r: "recv_eof p status n flag s = Returned (Received len pk) s'"
    and pool: "length (rx_buffer s) = rx_buffer_size s * MACB_RX_RING_SIZE"
    and small: "length (rx_buffer s) < 2 ^ 31"
    and tail: "rx_tail s < MACB_RX_RING_SIZE"
  shows "len = unat (status AND RXBUF_FRMLEN_MASK)
    \<and> rx_tail s' = rx_tail s \<and> wrapped s' = wrapped s \<and> rx_buffer s' = rx_buffer s
    \<and> rx_buffer_size s' = rx_buffer_size s
    \<and> (wrapped s \<longrightarrow> pk = Net_rx_packets0
          \<and> rx_buffer_size s * (MACB_RX_RING_SIZE - rx_tail s) \<le> len
          \<and> len \<le> length (net_rx_packets0 s)
          \<and> take len (net_rx_packets0 s') =
               take (rx_buffer_size s * (MACB_RX_RING_SIZE - rx_tail s))
                 (drop (rx_buffer_size s * rx_tail s) (rx_buffer s))
               @ take (len - rx_buffer_size s * (MACB_RX_RING_SIZE - rx_tail s)) (rx_buffer s)
          \<and> take len (net_rx_packets0 s') = dma_frame (rx_buffer s) (rx_buffer_size s * rx_tail s) len)
    \<and> (\<not> wrapped s \<longrightarrow> pk = Rx_buffer_at (rx_buffer_size s * rx_tail s)
          \<and> net_rx_packets0 s' = net_rx_packets0 s)"
proof (cases "wrapped s")
  case False
  with recv_eof_direct[OF r False] show ?thesis by simp
next
  case True
  define H where "H = headlen s"
  define start where "start = rx_buffer_size s * rx_tail s"
  define L where "L = unat (status AND RXBUF_FRMLEN_MASK)"
  define T where "T = taillen L H"
  note hl = headlen_eq[OF pool small tail, folded H_def start_def]
  from recv_eof_wrapped[OF r True, folded H_def start_def L_def, folded T_def]
  obtain b1 b2 where m1: "memcpy (net_rx_packets0 s) 0 (rx_buffer s) start H = Some b1"
    and m2: "memcpy b1 H (rx_buffer s) 0 T = Some b2"
    and res: "len = L" "pk = Net_rx_packets0"
      "net_rx_packets0 s' = b2" "rx_tail s' = rx_tail s" "wrapped s' = wrapped s"
      "rx_buffer s' = rx_buffer s" "rx_buffer_size s' = rx_buffer_size s"
    by blast
  note c1 = memcpy_Some[OF m1]
  note c2 = memcpy_Some[OF m2]
  have Lb: "L < 2 ^ 32" using frmlen_bound[of status] by (simp add: L_def)
  have Tle: "T \<le> length (rx_buffer s)" using c2(2) by simp
  from taillen_eq[OF Tle[unfolded T_def] small hl(3) Lb]
  have HL: "H \<le> L" and Teq: "T = L - H" by (simp_all add: T_def)
  have lenb1: "length b1 = length (net_rx_packets0 s)" by (rule c1(4))
  have fits: "L \<le> length (net_rx_packets0 s)"
    using c2(1) lenb1 Teq HL by simp
  have start_le: "start \<le> length (rx_buffer s)" using hl(2) by simp
  have Hdrop: "H = length (rx_buffer s) - start" using hl(2) by simp
  have tk1: "take H (drop start (rx_buffer s)) = drop start (rx_buffer s)"
    using Hdrop by simp
  have b1: "take H b1 = drop start (rx_buffer s)"
    using c1(3) tk1 Hdrop by simp
  have b2: "b2 = drop start (rx_buffer s) @ take T (rx_buffer s) @ drop (H + T) b1"
    using c2(3) b1 by simp
  have lenh: "length (drop start (rx_buffer s)) = H" using Hdrop by simp
  have lent: "length (take T (rx_buffer s)) = T" using Tle by simp
  have tlen: "take L b2 = drop start (rx_buffer s) @ take T (rx_buffer s)"
    unfolding b2 using lenh lent Teq HL by simp
  have frame: "dma_frame (rx_buffer s) start L = drop start (rx_buffer s) @ take T (rx_buffer s)"
  proof (cases "start < length (rx_buffer s)")
    case True
    have "L - (length (rx_buffer s) - start) \<le> length (rx_buffer s)"
      using Tle Teq Hdrop by simp
    moreover have "length (rx_buffer s) - start \<le> L" using HL Hdrop by simp
    ultimately show ?thesis
      using dma_frame_wrap[OF start_le _ _ True, of L] Teq Hdrop by simp
  next
    case False
    then have z: "H = 0" "start = length (rx_buffer s)" using Hdrop start_le by simp_all
    have "rx_buffer_size s = 0"
      using z(1) tail hl(1) by simp
    then have "rx_buffer s = []" using pool by simp
    then have "L = 0" using Tle Teq z(1) by simp
    then show ?thesis using \<open>rx_buffer s = []\<close> by (simp add: dma_frame_def)
  qed
  have Hval: "rx_buffer_size s * (MACB_RX_RING_SIZE - rx_tail s) = H" using hl(1) by simp
  show ?thesis
    unfolding Hval start_def[symmetric]
    using True res HL fits tlen frame tk1 by (simp add: Teq L_def)
qed

lemma reclaim_rx_buffers_fields:
  "config (reclaim_rx_buffers p n s) = config s"
  "dma_64b (reclaim_rx_buffers p n s) = dma_64b s"
  "rx_buffer (reclaim_rx_buffers p n s) = rx_buffer s"
  "rx_buffer_size (reclaim_rx_buffers p n s) = rx_buffer_size s"
  "net_rx_packets0 (reclaim_rx_buffers p n s) = net_rx_packets0 s"
  using released_only_fields[OF reclaim_rx_buffers_released[of p s n]] by (simp_all add: dma_64b_def)

lemma invalidate_ring_fields [simp]:
  "config (macb_invalidate_ring_desc p rx s) = config s"
  "dma_64b (macb_invalidate_ring_desc p rx s) = dma_64b s"
  "rx_buffer (macb_invalidate_ring_desc p rx s) = rx_buffer s"
  "rx_buffer_size (macb_invalidate_ring_desc p rx s) = rx_buffer_size s"
  "net_rx_packets0 (macb_invalidate_ring_desc p rx s) = net_rx_packets0 s"
  "rx_tail (macb_invalidate_ring_desc p rx s) = rx_tail s"
  "rx_ring (macb_invalidate_ring_desc p rx s) = rx_ring s"
  "wrapped (macb_invalidate_ring_desc p rx s) = wrapped s"
  by (simp_all add: macb_invalidate_ring_desc_def)

lemma rx_slot_invalidate [simp]: "rx_slot (macb_invalidate_ring_desc p rx s) n = rx_slot s n"
  by (simp add: rx_slot_def)

lemma rx_slot_half:
  assumes "n < MACB_RX_RING_SIZE"
  shows "dma_64b s \<Longrightarrow> rx_slot s n div 2 = n" and "\<not> dma_64b s \<Longrightarrow> rx_slot s n = n"
proof -
  have "n * 2 < 2 ^ 32" using assms by (simp add: MACB_RX_RING_SIZE_def)
  then have "(n * 2) mod 2 ^ 32 = n * 2" by (rule mod_less)
  then show "dma_64b s \<Longrightarrow> rx_slot s n div 2 = n" by (simp add: rx_slot_def)
  show "\<not> dma_64b s \<Longrightarrow> rx_slot s n = n" by (simp add: rx_slot_def)
qed

text \<open>The stage of a round between the ownership test and the end-of-frame test.\<close>

lemma recv_sof_stage:
  assumes n: "n < MACB_RX_RING_SIZE" and flag: "\<not> flag" and inv: "rx_scan_inv s0 s"
    and st: "(if c then recv_sof p (rx_slot s n) flag s else (rx_slot s n, flag, s)) = (n2, flag2, s2)"
  shows "rx_scan_inv s0 s2" and "dma_64b s2 = dma_64b s"
    and "(if dma_64b s2 \<and> \<not> flag2 then n2 div 2 else n2) = n"
    and "\<not> dma_64b s2 \<Longrightarrow> \<not> flag2"
proof -
  note h = rx_slot_half[OF n, of s]
  have "rx_scan_inv s0 s2 \<and> dma_64b s2 = dma_64b s
      \<and> (if dma_64b s2 \<and> \<not> flag2 then n2 div 2 else n2) = n \<and> (\<not> dma_64b s2 \<longrightarrow> \<not> flag2)"
  proof (cases c)
    case False
    with st have e: "n2 = rx_slot s n" "flag2 = flag" "s2 = s" by auto
    show ?thesis
      using inv flag h unfolding e by (cases "dma_64b s") simp_all
  next
    case True
    let ?n1 = "if dma_64b s then rx_slot s n div 2 else rx_slot s n"
    have n1: "?n1 = n" using h by (cases "dma_64b s") simp_all
    let ?s1 = "if n \<noteq> rx_tail s then reclaim_rx_buffers p n s else s"
    from st True have e: "n2 = n" "flag2 = (if dma_64b s then True else flag)"
        "s2 = ?s1\<lparr>wrapped := False\<rparr>"
      unfolding recv_sof_def Let_def n1 by auto
    have f: "config ?s1 = config s" "rx_buffer ?s1 = rx_buffer s"
        "rx_buffer_size ?s1 = rx_buffer_size s" "net_rx_packets0 ?s1 = net_rx_packets0 s"
        "dma_64b ?s1 = dma_64b s"
      by (simp_all add: reclaim_rx_buffers_fields)
    have t: "rx_tail ?s1 = n" by (simp add: reclaim_rx_buffers_tail)
    have d: "dma_64b s2 = dma_64b s" unfolding e using f(1) by (simp add: dma_64b_def)
    have i: "rx_scan_inv s0 s2"
      using inv f t n unfolding e rx_scan_inv_def by simp
    show ?thesis
      using i d flag unfolding e(1,2) by simp
  qed
  then show "rx_scan_inv s0 s2" and "dma_64b s2 = dma_64b s"
    and "(if dma_64b s2 \<and> \<not> flag2 then n2 div 2 else n2) = n"
    and "\<not> dma_64b s2 \<Longrightarrow> \<not> flag2"
    by blast+
qed

lemma recv_advance_next:
  assumes "recv_advance n2 flag2 s2 = Next n' flag' s'"
    and "(if dma_64b s2 \<and> \<not> flag2 then n2 div 2 else n2) = n" and "n < MACB_RX_RING_SIZE"
    and "\<not> dma_64b s2 \<Longrightarrow> \<not> flag2" and "rx_scan_inv s0 s2"
  shows "n' < MACB_RX_RING_SIZE \<and> \<not> flag' \<and> rx_scan_inv s0 s'"
proof -
  have m: "(n + 1) mod 2 ^ 32 = n + 1"
    using assms(3) by (simp add: MACB_RX_RING_SIZE_def)
  from assms(1) have "n' = (if MACB_RX_RING_SIZE \<le> n + 1 then 0 else n + 1)"
      and "flag' = (if dma_64b s2 then False else flag2)"
      and "s' = (if MACB_RX_RING_SIZE \<le> n + 1 then s2\<lparr>wrapped := True\<rparr> else s2)"
    unfolding recv_advance_def Let_def assms(2) m by (simp_all split: if_splits)
  then show ?thesis
    using assms(3,4,5) by (auto simp: rx_scan_inv_def MACB_RX_RING_SIZE_def)
qed

lemma recv_iteration_unfold:
  "recv_iteration p n flag s =
     (if addr (rx_ring s (rx_slot s n)) AND BIT_RX_USED p = 0
      then Done (Returned EAGAIN (macb_invalidate_ring_desc p True s))
      else (case (if ctrl (rx_ring s (rx_slot s n)) AND BIT_RX_SOF p \<noteq> 0
                  then recv_sof p (rx_slot s n) flag (macb_invalidate_ring_desc p True s)
                  else (rx_slot s n, flag, macb_invalidate_ring_desc p True s)) of
              (n2, flag2, s2) \<Rightarrow>
                if ctrl (rx_ring s (rx_slot s n)) AND BIT_RX_EOF p \<noteq> 0
                then Done (recv_eof p (ctrl (rx_ring s (rx_slot s n))) n2 flag2 s2)
                else recv_advance n2 flag2 s2))"
  by (simp add: recv_iteration_def Let_def)

lemma recv_iteration_next:
  assumes it: "recv_iteration p n flag s = Next n' flag' s'"
    and n: "n < MACB_RX_RING_SIZE" and flag: "\<not> flag" and inv: "rx_scan_inv s0 s"
  shows "n' < MACB_RX_RING_SIZE \<and> \<not> flag' \<and> rx_scan_inv s0 s'"
proof -
  let ?s1 = "macb_invalidate_ring_desc p True s"
  let ?c = "ctrl (rx_ring s (rx_slot s n)) AND BIT_RX_SOF p \<noteq> 0"
  have inv1: "rx_scan_inv s0 ?s1" using inv by (simp add: rx_scan_inv_def)
  obtain n2 flag2 s2 where st:
    "(if ?c then recv_sof p (rx_slot ?s1 n) flag ?s1 else (rx_slot ?s1 n, flag, ?s1)) = (n2, flag2, s2)"
    by (cases "if ?c then recv_sof p (rx_slot ?s1 n) flag ?s1 else (rx_slot ?s1 n, flag, ?s1)") auto
  note g = recv_sof_stage[OF n flag inv1 st]
  from it st have "recv_advance n2 flag2 s2 = Next n' flag' s'"
    unfolding recv_iteration_unfold by (simp split: if_splits)
  from recv_advance_next[OF this g(3) n g(4) g(1)] show ?thesis .
qed

lemma recv_iteration_done:
  assumes it: "recv_iteration p n flag s = Done (Returned r s')"
  shows "(r = EAGAIN \<longleftrightarrow> addr (rx_ring s (rx_slot s n)) AND BIT_RX_USED p = 0)
     \<and> (r \<noteq> EAGAIN \<longrightarrow>
          ctrl (rx_ring s (rx_slot s n)) AND BIT_RX_EOF p \<noteq> 0
          \<and> (\<exists>pk. r = Received (unat (ctrl (rx_ring s (rx_slot s n)) AND RXBUF_FRMLEN_MASK)) pk))"
proof (cases "addr (rx_ring s (rx_slot s n)) AND BIT_RX_USED p = 0")
  case True
  with it show ?thesis unfolding recv_iteration_unfold by simp
next
  case False
  let ?s1 = "macb_invalidate_ring_desc p True s"
  let ?st = "ctrl (rx_ring s (rx_slot s n))"
  obtain n2 flag2 s2 where st:
    "(if ?st AND BIT_RX_SOF p \<noteq> 0 then recv_sof p (rx_slot s n) flag ?s1 else (rx_slot s n, flag, ?s1)) = (n2, flag2, s2)"
    by (cases "if ?st AND BIT_RX_SOF p \<noteq> 0 then recv_sof p (rx_slot s n) flag ?s1 else (rx_slot s n, flag, ?s1)") auto
  from it False st have eof: "?st AND BIT_RX_EOF p \<noteq> 0"
    and e: "recv_eof p ?st n2 flag2 s2 = Returned r s'"
    unfolding recv_iteration_unfold by (auto simp: recv_advance_def Let_def split: if_splits)
  from e have "\<exists>pk. r = Received (unat (?st AND RXBUF_FRMLEN_MASK)) pk"
    unfolding recv_eof_def Let_def by (auto split: if_splits option.splits)
  with eof False show ?thesis by auto
qed

lemma recv_iteration_received:
  assumes it: "recv_iteration p n flag s = Done (Returned (Received len pk) s')"
    and n: "n < MACB_RX_RING_SIZE" and flag: "\<not> flag" and inv: "rx_scan_inv s0 s"
    and pool: "length (rx_buffer s0) = rx_buffer_size s0 * MACB_RX_RING_SIZE"
    and small: "length (rx_buffer s0) < 2 ^ 31"
  shows "rx_buffer s' = rx_buffer s0 \<and> rx_buffer_size s' = rx_buffer_size s0
    \<and> rx_tail s' < MACB_RX_RING_SIZE
    \<and> (wrapped s' \<longrightarrow> pk = Net_rx_packets0
          \<and> rx_buffer_size s0 * (MACB_RX_RING_SIZE - rx_tail s') \<le> len
          \<and> len \<le> length (net_rx_packets0 s0)
          \<and> take len (net_rx_packets0 s') =
               take (rx_buffer_size s0 * (MACB_RX_RING_SIZE - rx_tail s'))
                 (drop (rx_buffer_size s0 * rx_tail s') (rx_buffer s0))
               @ take (len - rx_buffer_size s0 * (MACB_RX_RING_SIZE - rx_tail s')) (rx_buffer s0)
          \<and> take len (net_rx_packets0 s') = dma_frame (rx_buffer s0) (rx_buffer_size s0 * rx_tail s') len)
    \<and> (\<not> wrapped s' \<longrightarrow> pk = Rx_buffer_at (rx_buffer_size s0 * rx_tail s')
          \<and> net_rx_packets0 s' = net_rx_packets0 s0)"
proof -
  let ?s1 = "macb_invalidate_ring_desc p True s"
  let ?st = "ctrl (rx_ring s (rx_slot s n))"
  have inv1: "rx_scan_inv s0 ?s1" using inv by (simp add: rx_scan_inv_def)
  obtain n2 flag2 s2 where st:
    "(if ?st AND BIT_RX_SOF p \<noteq> 0 then recv_sof p (rx_slot ?s1 n) flag ?s1 else (rx_slot ?s1 n, flag, ?s1)) = (n2, flag2, s2)"
    by (cases "if ?st AND BIT_RX_SOF p \<noteq> 0 then recv_sof p (rx_slot ?s1 n) flag ?s1 else (rx_slot ?s1 n, flag, ?s1)") auto
  note g = recv_sof_stage[OF n flag inv1 st]
  from it st have e: "recv_eof p ?st n2 flag2 s2 = Returned (Received len pk) s'"
    unfolding recv_iteration_unfold by (auto simp: recv_advance_def Let_def split: if_splits)
  from g(1) have f: "rx_buffer s2 = rx_buffer s0" "rx_buffer_size s2 = rx_buffer_size s0"
      "net_rx_packets0 s2 = net_rx_packets0 s0" "rx_tail s2 < MACB_RX_RING_SIZE"
    by (simp_all add: rx_scan_inv_def)
  have pool2: "length (rx_buffer s2) = rx_buffer_size s2 * MACB_RX_RING_SIZE"
    and small2: "length (rx_buffer s2) < 2 ^ 31"
    using pool small f by simp_all
  from recv_eof_received[OF e pool2 small2 f(4)] show ?thesis
    unfolding f(1,2,3) using f(4) by auto
qed

lemma recv_loop_last:
  "recv_loop p fuel n flag s = Some out \<Longrightarrow> n < MACB_RX_RING_SIZE \<Longrightarrow> \<not> flag \<Longrightarrow>
   rx_scan_inv s0 s \<Longrightarrow>
   \<exists>n' s1. n' < MACB_RX_RING_SIZE \<and> rx_scan_inv s0 s1 \<and> recv_iteration p n' False s1 = Done out"
proof (induction fuel arbitrary: n flag s)
  case 0
  then show ?case by simp
next
  case (Suc fuel)
  show ?case
  proof (cases "recv_iteration p n flag s")
    case (Done o1)
    with Suc.prems(1) have "o1 = out" by simp
    with Done Suc.prems(2,3,4) show ?thesis by auto
  next
    case (Next n1 flag1 s1)
    from recv_iteration_next[OF Next Suc.prems(2,3,4)]
    have a: "n1 < MACB_RX_RING_SIZE" "\<not> flag1" "rx_scan_inv s0 s1" by simp_all
    from Suc.prems(1) Next have "recv_loop p fuel n1 flag1 s1 = Some out" by simp
    from Suc.IH[OF this a] show ?thesis .
  qed
qed

lemma rx_wrap_run:
  "do_macb_recv cadence (Suc (Suc 0)) rx_wrap_dev = Some (Returned (Received 3 Net_rx_packets0) rx_wrap_done)"
  by (simp add: do_macb_recv_def recv_iteration_def recv_sof_def recv_eof_def recv_advance_def
      rx_slot_def Let_def rx_wrap_dev_def rx_wrap_done_def dev0_def default_gem_config_def
      dma_64b_def HW_DMA_CAP_64B_def HW_DMA_CAP_32B_def wrap_ring_def zero_desc_def cadence_def
      macb_invalidate_ring_desc_def macb_invalidate_rx_buffer_def emit_def ALIGN_def
      MACB_RX_DMA_DESC_SIZE_def DMA_DESC_BYTES_def DMA_DESC_SIZE_def MACB_RX_RING_SIZE_def
      RXBUF_FRMLEN_MASK_def headlen_def taillen_def memcpy_def)


lemma recv_loop_some_iteration:
  "recv_loop p fuel n flag s = Some out \<Longrightarrow> \<exists>n' flag' s1. recv_iteration p n' flag' s1 = Done out"
proof (induction fuel arbitrary: n flag s)
  case 0
  then show ?case by simp
next
  case (Suc fuel)
  show ?case
  proof (cases "recv_iteration p n flag s")
    case (Done o1)
    with Suc.prems have "o1 = out" by simp
    with Done show ?thesis by blast
  next
    case (Next n1 flag1 s1)
    with Suc.prems have "recv_loop p fuel n1 flag1 s1 = Some out" by simp
    from Suc.IH[OF this] show ?thesis .
  qed
qed

text \<open>
  What a returned frame is, from any state whose tail and cursor are inside the ring: the
  pool slot at the reclaim tail when the wrapped flag is clear, and otherwise the copy of
  the two halves in \<^verbatim>\<open>net_rx_packets[0]\<close>.
\<close>

lemma recv_frame_if_returned:
  assumes run: "do_macb_recv p fuel s = Some (Returned (Received len pk) s')"
    and pool: "length (rx_buffer s) = rx_buffer_size s * MACB_RX_RING_SIZE"
    and small: "length (rx_buffer s) < 2 ^ 31"
    and tail: "rx_tail s < MACB_RX_RING_SIZE"
    and cursor: "next_rx_tail s < MACB_RX_RING_SIZE"
  shows "rx_buffer s' = rx_buffer s \<and> rx_buffer_size s' = rx_buffer_size s
    \<and> rx_tail s' < MACB_RX_RING_SIZE
    \<and> (wrapped s' \<longrightarrow> pk = Net_rx_packets0
          \<and> rx_buffer_size s * (MACB_RX_RING_SIZE - rx_tail s') \<le> len
          \<and> len \<le> length (net_rx_packets0 s)
          \<and> take len (net_rx_packets0 s') =
               take (rx_buffer_size s * (MACB_RX_RING_SIZE - rx_tail s'))
                 (drop (rx_buffer_size s * rx_tail s') (rx_buffer s))
               @ take (len - rx_buffer_size s * (MACB_RX_RING_SIZE - rx_tail s')) (rx_buffer s)
          \<and> take len (net_rx_packets0 s') = dma_frame (rx_buffer s) (rx_buffer_size s * rx_tail s') len)
    \<and> (\<not> wrapped s' \<longrightarrow> pk = Rx_buffer_at (rx_buffer_size s * rx_tail s')
          \<and> net_rx_packets0 s' = net_rx_packets0 s)"
proof -
  have inv: "rx_scan_inv s (s\<lparr>wrapped := False\<rparr>)"
    using tail by (simp add: rx_scan_inv_def)
  from run have loop: "recv_loop p fuel (next_rx_tail s) False (s\<lparr>wrapped := False\<rparr>) =
      Some (Returned (Received len pk) s')"
    by (simp add: do_macb_recv_def)
  have nf: "\<not> False" by simp
  from recv_loop_last[OF loop cursor nf inv]
  obtain n' s1 where n': "n' < MACB_RX_RING_SIZE" and i1: "rx_scan_inv s s1"
    and it: "recv_iteration p n' False s1 = Done (Returned (Received len pk) s')"
    by blast
  from recv_iteration_received[OF it n' nf i1 pool small] show ?thesis .
qed















text \<open>
  Claim C7. \<^verbatim>\<open>_macb_recv\<close> returns \<^verbatim>\<open>-EAGAIN\<close> exactly when the descriptor at
  the scan cursor does not have its ownership bit set: if this is so for the descriptor
  at the stored cursor the call returns \<^verbatim>\<open>-EAGAIN\<close> at once; a round of the loop
  returns \<^verbatim>\<open>-EAGAIN\<close> if and only if the descriptor it looks at has the bit clear; and
  whatever the call returns is returned by a round of the loop at some cursor \<open>c\<close>,
  \<^verbatim>\<open>-EAGAIN\<close> if the descriptor at \<open>c\<close> has the bit clear, and otherwise a frame with
  the length of the status word (at most 4095) of a descriptor that has the bit set and
  ends a frame. There is no third kind of return value.
\<close>

theorem recv_returns_frame_or_eagain:
  "(addr (rx_ring s (rx_slot s (next_rx_tail s))) AND BIT_RX_USED p = 0 \<longrightarrow>
      do_macb_recv p (Suc fuel) s =
        Some (Returned EAGAIN (macb_invalidate_ring_desc p True (s\<lparr>wrapped := False\<rparr>))))
   \<and> ((\<exists>t'. recv_iteration p n flag t = Done (Returned EAGAIN t')) \<longleftrightarrow>
         addr (rx_ring t (rx_slot t n)) AND BIT_RX_USED p = 0)
   \<and> (do_macb_recv p fuel s = Some (Returned r s') \<longrightarrow>
        (\<exists>c fl u. recv_iteration p c fl u = Done (Returned r s')
           \<and> (r = EAGAIN \<longleftrightarrow> addr (rx_ring u (rx_slot u c)) AND BIT_RX_USED p = 0)
           \<and> (r \<noteq> EAGAIN \<longrightarrow>
                ctrl (rx_ring u (rx_slot u c)) AND BIT_RX_EOF p \<noteq> 0
                \<and> (\<exists>pk len. r = Received len pk \<and> len \<le> 4095
                      \<and> len = unat (ctrl (rx_ring u (rx_slot u c)) AND RXBUF_FRMLEN_MASK)))))"
proof (intro conjI impI)
  assume free: "addr (rx_ring s (rx_slot s (next_rx_tail s))) AND BIT_RX_USED p = 0"
  have sl: "rx_slot (s\<lparr>wrapped := False\<rparr>) (next_rx_tail s) = rx_slot s (next_rx_tail s)"
    by (simp add: rx_slot_def dma_64b_def)
  show "do_macb_recv p (Suc fuel) s =
      Some (Returned EAGAIN (macb_invalidate_ring_desc p True (s\<lparr>wrapped := False\<rparr>)))"
    using free by (simp add: do_macb_recv_def recv_iteration_unfold sl)
next
  show "(\<exists>t'. recv_iteration p n flag t = Done (Returned EAGAIN t')) \<longleftrightarrow>
      addr (rx_ring t (rx_slot t n)) AND BIT_RX_USED p = 0"
  proof
    assume "\<exists>t'. recv_iteration p n flag t = Done (Returned EAGAIN t')"
    then obtain t' where "recv_iteration p n flag t = Done (Returned EAGAIN t')" by blast
    from recv_iteration_done[OF this] show "addr (rx_ring t (rx_slot t n)) AND BIT_RX_USED p = 0"
      by simp
  next
    assume "addr (rx_ring t (rx_slot t n)) AND BIT_RX_USED p = 0"
    then show "\<exists>t'. recv_iteration p n flag t = Done (Returned EAGAIN t')"
      by (simp add: recv_iteration_unfold)
  qed
next
  assume run: "do_macb_recv p fuel s = Some (Returned r s')"
  then have "recv_loop p fuel (next_rx_tail s) False (s\<lparr>wrapped := False\<rparr>) = Some (Returned r s')"
    by (simp add: do_macb_recv_def)
  from recv_loop_some_iteration[OF this]
  obtain c fl u where it: "recv_iteration p c fl u = Done (Returned r s')" by blast
  note d = recv_iteration_done[OF it]
  have "r \<noteq> EAGAIN \<longrightarrow>
      ctrl (rx_ring u (rx_slot u c)) AND BIT_RX_EOF p \<noteq> 0
      \<and> (\<exists>pk len. r = Received len pk \<and> len \<le> 4095
            \<and> len = unat (ctrl (rx_ring u (rx_slot u c)) AND RXBUF_FRMLEN_MASK))"
    using d frmlen_bound[of "ctrl (rx_ring u (rx_slot u c))"] by auto
  with it d show "\<exists>c fl u. recv_iteration p c fl u = Done (Returned r s')
           \<and> (r = EAGAIN \<longleftrightarrow> addr (rx_ring u (rx_slot u c)) AND BIT_RX_USED p = 0)
           \<and> (r \<noteq> EAGAIN \<longrightarrow>
                ctrl (rx_ring u (rx_slot u c)) AND BIT_RX_EOF p \<noteq> 0
                \<and> (\<exists>pk len. r = Received len pk \<and> len \<le> 4095
                      \<and> len = unat (ctrl (rx_ring u (rx_slot u c)) AND RXBUF_FRMLEN_MASK)))"
    by blast
qed

theorem recv_returns_frame_or_eagain_witness:
  "addr (rx_ring (dev0 default_gem_config) (rx_slot (dev0 default_gem_config)
      (next_rx_tail (dev0 default_gem_config)))) AND BIT_RX_USED cadence = 0
   \<and> do_macb_recv cadence (Suc 0) (dev0 default_gem_config) =
       Some (Returned EAGAIN (macb_invalidate_ring_desc cadence True
               ((dev0 default_gem_config)\<lparr>wrapped := False\<rparr>)))
   \<and> do_macb_recv cadence (Suc (Suc 0)) rx_wrap_dev =
       Some (Returned (Received 3 Net_rx_packets0) rx_wrap_done)
   \<and> (3::nat) \<le> 4095"
proof -
  have h: "addr (rx_ring (dev0 default_gem_config) (rx_slot (dev0 default_gem_config)
      (next_rx_tail (dev0 default_gem_config)))) AND BIT_RX_USED cadence = 0"
    by (simp add: dev0_def zero_ring_def zero_desc_def)
  from recv_returns_frame_or_eagain[of "dev0 default_gem_config" cadence 0] h
  have a: "do_macb_recv cadence (Suc 0) (dev0 default_gem_config) =
       Some (Returned EAGAIN (macb_invalidate_ring_desc cadence True
               ((dev0 default_gem_config)\<lparr>wrapped := False\<rparr>)))"
    by blast
  from h a rx_wrap_run show ?thesis by simp
qed

section \<open>Queue set-up\<close>

lemma writel_fields [simp]:
  "regs (macb_writel r v s) = (regs s)(r := v)" "config (macb_writel r v s) = config s"
  "dummy_desc (macb_writel r v s) = dummy_desc s"
  "dummy_desc_dma (macb_writel r v s) = dummy_desc_dma s"
  "dma_64b (macb_writel r v s) = dma_64b s" "trace (macb_writel r v s) = trace s"
  by (simp_all add: macb_writel_def dma_64b_def)

lemma disable_fold_fields:
  "config (fold (\<lambda>i s. macb_writel (RBQP (i - 1)) 1 (macb_writel (TBQP (i - 1)) 1 s)) xs s) = config s"
  "dummy_desc_dma (fold (\<lambda>i s. macb_writel (RBQP (i - 1)) 1 (macb_writel (TBQP (i - 1)) 1 s)) xs s)
     = dummy_desc_dma s"
  "trace (fold (\<lambda>i s. macb_writel (RBQP (i - 1)) 1 (macb_writel (TBQP (i - 1)) 1 s)) xs s) = trace s"
  by (induction xs arbitrary: s; simp)+

lemma disable_fold_regs:
  "regs (fold (\<lambda>i s. macb_writel (RBQP (i - 1)) 1 (macb_writel (TBQP (i - 1)) 1 s)) xs s) r =
     (if (\<exists>i\<in>set xs. r = TBQP (i - 1) \<or> r = RBQP (i - 1)) then 1 else regs s r)"
  by (induction xs arbitrary: s; auto)

lemma disable_all_queues_fields [simp]:
  "config (disable_all_queues p s) = config s"
  "dummy_desc_dma (disable_all_queues p s) = dummy_desc_dma s"
  "trace (disable_all_queues p s) = trace s"
  unfolding disable_all_queues_def by (rule disable_fold_fields)+

lemma disable_all_queues_regs:
  "regs (disable_all_queues p s) r =
     (if (\<exists>i. 1 \<le> i \<and> i < MACB_MAX_QUEUES p \<and> (r = TBQP (i - 1) \<or> r = RBQP (i - 1)))
      then 1 else regs s r)"
  unfolding disable_all_queues_def disable_fold_regs by auto

lemma disable_all_queues_mask [simp]:
  "gmac_queue_mask (disable_all_queues p s) = gmac_queue_mask s"
  by (simp add: gmac_queue_mask_def disable_all_queues_regs cong: if_cong)

lemma queue_mask_bit:
  "bit (gmac_queue_mask s) i \<longleftrightarrow>
     i = 0 \<or> i < 16 \<and> bit (regs s DCFG6) i \<and>
       (queue_mask (config s) = 0 \<or> bit (queue_mask (config s)) i)"
proof -
  have m: "(0xffff :: u32) = mask 16" by (simp add: mask_eq_exp_minus_1)
  show ?thesis
    unfolding gmac_queue_mask_def Let_def m
    by (auto simp: bit_simps bit_1_iff dest: bit_imp_le_length)
qed

text \<open>The loop of lines 1004 to 1025 on a list of queue indices.\<close>

lemma init_queue_fold_fields:
  "fold (init_queue p qm paddr v) xs (lo, up, s) = (lo', up', s') \<Longrightarrow>
     config s' = config s \<and> dummy_desc s' = dummy_desc s \<and> dummy_desc_dma s' = dummy_desc_dma s"
proof (induction xs arbitrary: lo up s)
  case Nil
  then show ?case by simp
next
  case (Cons x xs)
  obtain lo1 up1 s1 where st: "init_queue p qm paddr v x (lo, up, s) = (lo1, up1, s1)"
    by (cases "init_queue p qm paddr v x (lo, up, s)") auto
  from st have "config s1 = config s \<and> dummy_desc s1 = dummy_desc s \<and> dummy_desc_dma s1 = dummy_desc_dma s"
    by (auto simp: init_queue_def Let_def split: if_splits)
  moreover from Cons.prems st have "fold (init_queue p qm paddr v) xs (lo1, up1, s1) = (lo', up', s')"
    by simp
  from Cons.IH[OF this] have "config s' = config s1 \<and> dummy_desc s' = dummy_desc s1 \<and> dummy_desc_dma s' = dummy_desc_dma s1" .
  ultimately show ?case by simp
qed

lemma init_queue_fold_regs:
  "fold (init_queue p qm paddr v) xs (lo, up, s) = (lo', up', s') \<Longrightarrow>
     (\<forall>q. regs s' (TBQP q) =
            (if (\<exists>i\<in>set xs. bit qm i \<and> q = i - 1) then lower_32_bits paddr else regs s (TBQP q))) \<and>
     (\<forall>q. regs s' (RBQP q) =
            (if (\<exists>i\<in>set xs. bit qm i \<and> q = i - 1) then lower_32_bits paddr else regs s (RBQP q))) \<and>
     (\<forall>q. regs s' (TBQPH q) =
            (if dma_64b s \<and> (\<exists>i\<in>set xs. bit qm i \<and> q = i - 1) then upper_32_bits paddr
             else regs s (TBQPH q))) \<and>
     (\<forall>q. regs s' (RBQPH q) =
            (if dma_64b s \<and> (\<exists>i\<in>set xs. bit qm i \<and> q = i - 1) then upper_32_bits paddr
             else regs s (RBQPH q))) \<and>
     regs s' DCFG6 = regs s DCFG6 \<and> regs s' NCR = regs s NCR \<and>
     regs s' SEG_ALLOC_LOWER = regs s SEG_ALLOC_LOWER \<and>
     regs s' SEG_ALLOC_UPPER = regs s SEG_ALLOC_UPPER \<and> dma_64b s' = dma_64b s"
proof (induction xs arbitrary: lo up s)
  case Nil
  then show ?case by simp
next
  case (Cons x xs)
  obtain lo1 up1 s1 where st: "init_queue p qm paddr v x (lo, up, s) = (lo1, up1, s1)"
    by (cases "init_queue p qm paddr v x (lo, up, s)") auto
  from st have one: "regs s1 = (if bit qm x
      then (if dma_64b s
            then (regs s)(TBQP (x - 1) := lower_32_bits paddr, RBQP (x - 1) := lower_32_bits paddr,
                   TBQPH (x - 1) := upper_32_bits paddr, RBQPH (x - 1) := upper_32_bits paddr)
            else (regs s)(TBQP (x - 1) := lower_32_bits paddr, RBQP (x - 1) := lower_32_bits paddr))
      else regs s)" and d: "dma_64b s1 = dma_64b s"
    by (auto simp: init_queue_def Let_def bit_iff_and_push_bit_not_eq_0 split: if_splits)
  from Cons.prems st have "fold (init_queue p qm paddr v) xs (lo1, up1, s1) = (lo', up', s')"
    by simp
  note ih = Cons.IH[OF this]
  show ?case
    unfolding ih[THEN conjunct1] ih[THEN conjunct2, THEN conjunct1]
    using ih one d by (auto simp: fun_upd_def)
qed

lemma num_queues_le: "gmac_num_queues p qm \<le> max 1 (MACB_MAX_QUEUES p)"
proof -
  have "length (filter (\<lambda>i. qm AND push_bit i 1 \<noteq> 0) [1..<MACB_MAX_QUEUES p])
          \<le> length [1..<MACB_MAX_QUEUES p]"
    by (rule length_filter_le)
  then show ?thesis by (simp add: gmac_num_queues_def)
qed

lemma init_multi_queues_unfold:
  assumes "gmac_init_multi_queues p s = (r, s')"
  obtains lo up s1 s4 where
    "s1 = (if disable_queues_at_init (config s) then disable_all_queues p s else s)"
    "fold (init_queue p (gmac_queue_mask s) (dummy_desc_dma s)
             (ilog2 (MACB_SEGMENTS_NUM p div gmac_num_queues p (gmac_queue_mask s))))
        [1..<gmac_num_queues p (gmac_queue_mask s)]
        (0, 0, emit (Flush_dcache_range (unat (dummy_desc_dma s))
                 (unat (dummy_desc_dma s) + ALIGN MACB_TX_DUMMY_DMA_DESC_SIZE (PKTALIGN p)))
               (s1\<lparr>dummy_desc := \<lparr>addr = 0, ctrl = BIT_TX_USED p\<rparr>\<rparr>)) = (lo, up, s4)"
    "r = 0"
    "s' = (if allocate_segments_equally (config s)
           then macb_writel SEG_ALLOC_UPPER up (macb_writel SEG_ALLOC_LOWER lo s4) else s4)"
proof -
  define s1 where "s1 = (if disable_queues_at_init (config s) then disable_all_queues p s else s)"
  have q: "gmac_queue_mask s1 = gmac_queue_mask s" and d: "dummy_desc_dma s1 = dummy_desc_dma s"
    and c: "config s1 = config s"
    by (simp_all add: s1_def)
  define st where "st = fold (init_queue p (gmac_queue_mask s) (dummy_desc_dma s)
             (ilog2 (MACB_SEGMENTS_NUM p div gmac_num_queues p (gmac_queue_mask s))))
        [1..<gmac_num_queues p (gmac_queue_mask s)]
        (0, 0, emit (Flush_dcache_range (unat (dummy_desc_dma s))
                 (unat (dummy_desc_dma s) + ALIGN MACB_TX_DUMMY_DMA_DESC_SIZE (PKTALIGN p)))
               (s1\<lparr>dummy_desc := \<lparr>addr = 0, ctrl = BIT_TX_USED p\<rparr>\<rparr>))"
  obtain lo up s4 where st: "st = (lo, up, s4)" by (cases st) auto
  from st[unfolded st_def, THEN init_queue_fold_fields]
  have c4: "config s4 = config s" by (simp add: c)
  note st' = st[unfolded st_def]
  from assms have "(case st of (seg_alloc_lower, seg_alloc_upper, s4) \<Rightarrow>
             (0 :: int, if allocate_segments_equally (config s4)
                 then macb_writel SEG_ALLOC_UPPER seg_alloc_upper
                        (macb_writel SEG_ALLOC_LOWER seg_alloc_lower s4)
                 else s4)) = (r, s')"
    unfolding gmac_init_multi_queues_def Let_def s1_def[symmetric] st_def
    by (simp add: q d c)
  then have "r = 0 \<and> s' = (if allocate_segments_equally (config s)
           then macb_writel SEG_ALLOC_UPPER up (macb_writel SEG_ALLOC_LOWER lo s4) else s4)"
    unfolding st by (auto simp: c4)
  with that[OF s1_def st'] show thesis by blast
qed

lemma init_multi_queues_regs:
  assumes "gmac_init_multi_queues p s = (r, s')"
  shows "dummy_desc s' = \<lparr>addr = 0, ctrl = BIT_TX_USED p\<rparr>"
    and "regs s' (TBQP q) =
      (if \<exists>i. 1 \<le> i \<and> i < gmac_num_queues p (gmac_queue_mask s) \<and> bit (gmac_queue_mask s) i
              \<and> q = i - 1
       then lower_32_bits (dummy_desc_dma s)
       else if disable_queues_at_init (config s) \<and> q + 1 < MACB_MAX_QUEUES p then 1
       else regs s (TBQP q))"
    and "regs s' (RBQP q) =
      (if \<exists>i. 1 \<le> i \<and> i < gmac_num_queues p (gmac_queue_mask s) \<and> bit (gmac_queue_mask s) i
              \<and> q = i - 1
       then lower_32_bits (dummy_desc_dma s)
       else if disable_queues_at_init (config s) \<and> q + 1 < MACB_MAX_QUEUES p then 1
       else regs s (RBQP q))"
    and "regs s' (TBQPH q) =
      (if dma_64b s \<and> (\<exists>i. 1 \<le> i \<and> i < gmac_num_queues p (gmac_queue_mask s)
              \<and> bit (gmac_queue_mask s) i \<and> q = i - 1)
       then upper_32_bits (dummy_desc_dma s) else regs s (TBQPH q))"
    and "regs s' (RBQPH q) =
      (if dma_64b s \<and> (\<exists>i. 1 \<le> i \<and> i < gmac_num_queues p (gmac_queue_mask s)
              \<and> bit (gmac_queue_mask s) i \<and> q = i - 1)
       then upper_32_bits (dummy_desc_dma s) else regs s (RBQPH q))"
proof -
  from assms obtain lo up s1 s4 where
    s1: "s1 = (if disable_queues_at_init (config s) then disable_all_queues p s else s)"
    and f: "fold (init_queue p (gmac_queue_mask s) (dummy_desc_dma s)
             (ilog2 (MACB_SEGMENTS_NUM p div gmac_num_queues p (gmac_queue_mask s))))
        [1..<gmac_num_queues p (gmac_queue_mask s)]
        (0, 0, emit (Flush_dcache_range (unat (dummy_desc_dma s))
                 (unat (dummy_desc_dma s) + ALIGN MACB_TX_DUMMY_DMA_DESC_SIZE (PKTALIGN p)))
               (s1\<lparr>dummy_desc := \<lparr>addr = 0, ctrl = BIT_TX_USED p\<rparr>\<rparr>)) = (lo, up, s4)"
    and s': "s' = (if allocate_segments_equally (config s)
           then macb_writel SEG_ALLOC_UPPER up (macb_writel SEG_ALLOC_LOWER lo s4) else s4)"
    by (rule init_multi_queues_unfold)
  have d1: "config s1 = config s" by (simp add: s1)
  have r1: "regs s1 (TBQP q) =
      (if disable_queues_at_init (config s) \<and> q + 1 < MACB_MAX_QUEUES p then 1 else regs s (TBQP q))"
    "regs s1 (RBQP q) =
      (if disable_queues_at_init (config s) \<and> q + 1 < MACB_MAX_QUEUES p then 1 else regs s (RBQP q))"
    "regs s1 (TBQPH q) = regs s (TBQPH q)" "regs s1 (RBQPH q) = regs s (RBQPH q)"
    unfolding s1 by (auto simp: disable_all_queues_regs intro: exI[of _ "Suc q"])
  note fields = init_queue_fold_fields[OF f]
  note rg = init_queue_fold_regs[OF f]
  have set: "(\<exists>i\<in>set [1..<gmac_num_queues p (gmac_queue_mask s)]. bit (gmac_queue_mask s) i \<and> q = i - 1)
      \<longleftrightarrow> (\<exists>i. 1 \<le> i \<and> i < gmac_num_queues p (gmac_queue_mask s) \<and> bit (gmac_queue_mask s) i
              \<and> q = i - 1)"
    by auto
  show "dummy_desc s' = \<lparr>addr = 0, ctrl = BIT_TX_USED p\<rparr>"
    using fields by (simp add: s')
  have "regs s' (TBQP q) = regs s4 (TBQP q)" "regs s' (RBQP q) = regs s4 (RBQP q)"
    "regs s' (TBQPH q) = regs s4 (TBQPH q)" "regs s' (RBQPH q) = regs s4 (RBQPH q)"
    by (simp_all add: s')
  moreover have "regs s4 (TBQP q) = (if (\<exists>i\<in>set [1..<gmac_num_queues p (gmac_queue_mask s)].
       bit (gmac_queue_mask s) i \<and> q = i - 1) then lower_32_bits (dummy_desc_dma s)
       else regs s1 (TBQP q))"
    using rg[THEN conjunct1, rule_format, of q] by (simp cong: if_cong)
  moreover have "regs s4 (RBQP q) = (if (\<exists>i\<in>set [1..<gmac_num_queues p (gmac_queue_mask s)].
       bit (gmac_queue_mask s) i \<and> q = i - 1) then lower_32_bits (dummy_desc_dma s)
       else regs s1 (RBQP q))"
    using rg[THEN conjunct2, THEN conjunct1, rule_format, of q] by (simp cong: if_cong)
  moreover have "regs s4 (TBQPH q) = (if dma_64b s \<and> (\<exists>i\<in>set [1..<gmac_num_queues p (gmac_queue_mask s)].
       bit (gmac_queue_mask s) i \<and> q = i - 1) then upper_32_bits (dummy_desc_dma s)
       else regs s1 (TBQPH q))"
    using rg[THEN conjunct2, THEN conjunct2, THEN conjunct1, rule_format, of q] by (simp add: d1 dma_64b_def cong: if_cong)
  moreover have "regs s4 (RBQPH q) = (if dma_64b s \<and> (\<exists>i\<in>set [1..<gmac_num_queues p (gmac_queue_mask s)].
       bit (gmac_queue_mask s) i \<and> q = i - 1) then upper_32_bits (dummy_desc_dma s)
       else regs s1 (RBQPH q))"
    using rg[THEN conjunct2, THEN conjunct2, THEN conjunct2, THEN conjunct1, rule_format, of q] by (simp add: d1 dma_64b_def cong: if_cong)
  ultimately show "regs s' (TBQP q) =
      (if \<exists>i. 1 \<le> i \<and> i < gmac_num_queues p (gmac_queue_mask s) \<and> bit (gmac_queue_mask s) i
              \<and> q = i - 1
       then lower_32_bits (dummy_desc_dma s)
       else if disable_queues_at_init (config s) \<and> q + 1 < MACB_MAX_QUEUES p then 1
       else regs s (TBQP q))"
    and "regs s' (RBQP q) =
      (if \<exists>i. 1 \<le> i \<and> i < gmac_num_queues p (gmac_queue_mask s) \<and> bit (gmac_queue_mask s) i
              \<and> q = i - 1
       then lower_32_bits (dummy_desc_dma s)
       else if disable_queues_at_init (config s) \<and> q + 1 < MACB_MAX_QUEUES p then 1
       else regs s (RBQP q))"
    and "regs s' (TBQPH q) =
      (if dma_64b s \<and> (\<exists>i. 1 \<le> i \<and> i < gmac_num_queues p (gmac_queue_mask s)
              \<and> bit (gmac_queue_mask s) i \<and> q = i - 1)
       then upper_32_bits (dummy_desc_dma s) else regs s (TBQPH q))"
    and "regs s' (RBQPH q) =
      (if dma_64b s \<and> (\<exists>i. 1 \<le> i \<and> i < gmac_num_queues p (gmac_queue_mask s)
              \<and> bit (gmac_queue_mask s) i \<and> q = i - 1)
       then upper_32_bits (dummy_desc_dma s) else regs s (RBQPH q))"
    unfolding set r1 by simp_all
qed

text \<open>
  Claim C5, amended. The queue mask of \<^verbatim>\<open>gmac_init_multi_queues\<close> has bit 0 set, and bit
  \<open>k\<close> for \<open>1 \<le> k < 16\<close> exactly when the capability register \<^verbatim>\<open>DCFG6\<close> has it and the
  mask of the configuration is zero (which restricts nothing) or has it as well. The
  dummy descriptor is written with the address word 0 and the control word
  \<^verbatim>\<open>TX_USED\<close>. For every queue \<open>i \<ge> 1\<close> in the mask whose index is below the number of queues
  in the mask, the transmit and the receive base-address registers are pointed at the
  dummy descriptor (and the high words too with 64-bit addressing). For every queue
  \<open>j \<ge> 1\<close> outside the mask the two registers hold 1 when the configuration disables the
  queues at initialisation and \<open>j\<close> is below \<^verbatim>\<open>MACB_MAX_QUEUES\<close>, and what they held before
  otherwise.
\<close>

theorem init_points_masked_queues_at_dummy:
  assumes "gmac_init_multi_queues p s = (r, s')"
  shows "(bit (gmac_queue_mask s) k \<longleftrightarrow>
            k = 0 \<or> k < 16 \<and> bit (regs s DCFG6) k \<and>
              (queue_mask (config s) = 0 \<or> bit (queue_mask (config s)) k))
    \<and> dummy_desc s' = \<lparr>addr = 0, ctrl = BIT_TX_USED p\<rparr>
    \<and> (1 \<le> i \<and> i < gmac_num_queues p (gmac_queue_mask s) \<and> bit (gmac_queue_mask s) i \<longrightarrow>
         regs s' (TBQP (i - 1)) = lower_32_bits (dummy_desc_dma s) \<and>
         regs s' (RBQP (i - 1)) = lower_32_bits (dummy_desc_dma s) \<and>
         (dma_64b s \<longrightarrow> regs s' (TBQPH (i - 1)) = upper_32_bits (dummy_desc_dma s) \<and>
                          regs s' (RBQPH (i - 1)) = upper_32_bits (dummy_desc_dma s)))
    \<and> (1 \<le> j \<and> \<not> bit (gmac_queue_mask s) j \<longrightarrow>
         regs s' (TBQP (j - 1)) =
           (if disable_queues_at_init (config s) \<and> j < MACB_MAX_QUEUES p then 1
            else regs s (TBQP (j - 1))) \<and>
         regs s' (RBQP (j - 1)) =
           (if disable_queues_at_init (config s) \<and> j < MACB_MAX_QUEUES p then 1
            else regs s (RBQP (j - 1))))"
proof (intro conjI impI)
  show "bit (gmac_queue_mask s) k \<longleftrightarrow>
            k = 0 \<or> k < 16 \<and> bit (regs s DCFG6) k \<and>
              (queue_mask (config s) = 0 \<or> bit (queue_mask (config s)) k)"
    by (rule queue_mask_bit)
  show "dummy_desc s' = \<lparr>addr = 0, ctrl = BIT_TX_USED p\<rparr>"
    by (rule init_multi_queues_regs(1)[OF assms])
next
  assume a: "1 \<le> i \<and> i < gmac_num_queues p (gmac_queue_mask s) \<and> bit (gmac_queue_mask s) i"
  then have e: "\<exists>i'. 1 \<le> i' \<and> i' < gmac_num_queues p (gmac_queue_mask s)
      \<and> bit (gmac_queue_mask s) i' \<and> i - 1 = i' - 1"
    by blast
  show "regs s' (TBQP (i - 1)) = lower_32_bits (dummy_desc_dma s)"
    unfolding init_multi_queues_regs(2)[OF assms] using e by simp
  show "regs s' (RBQP (i - 1)) = lower_32_bits (dummy_desc_dma s)"
    unfolding init_multi_queues_regs(3)[OF assms] using e by simp
  assume d: "dma_64b s"
  show "regs s' (TBQPH (i - 1)) = upper_32_bits (dummy_desc_dma s)"
    unfolding init_multi_queues_regs(4)[OF assms] using e d by simp
  show "regs s' (RBQPH (i - 1)) = upper_32_bits (dummy_desc_dma s)"
    unfolding init_multi_queues_regs(5)[OF assms] using e d by simp
next
  assume a: "1 \<le> j \<and> \<not> bit (gmac_queue_mask s) j"
  then have e: "\<not> (\<exists>i'. 1 \<le> i' \<and> i' < gmac_num_queues p (gmac_queue_mask s)
      \<and> bit (gmac_queue_mask s) i' \<and> j - 1 = i' - 1)"
    by (metis Suc_pred' less_eq_Suc_le One_nat_def diff_Suc_1 le_add_diff_inverse plus_1_eq_Suc)
  from a have j: "j - 1 + 1 = j" by simp
  show "regs s' (TBQP (j - 1)) =
           (if disable_queues_at_init (config s) \<and> j < MACB_MAX_QUEUES p then 1
            else regs s (TBQP (j - 1)))"
    unfolding init_multi_queues_regs(2)[OF assms] using e by (simp only: j if_False)
  show "regs s' (RBQP (j - 1)) =
           (if disable_queues_at_init (config s) \<and> j < MACB_MAX_QUEUES p then 1
            else regs s (RBQP (j - 1)))"
    unfolding init_multi_queues_regs(3)[OF assms] using e by (simp only: j if_False)
qed

lemma ilog2_bounds: "0 < m \<Longrightarrow> 2 ^ ilog2 m \<le> m \<and> m < 2 ^ Suc (ilog2 m)"
proof (induction m rule: ilog2.induct)
  case (1 n)
  show ?case
  proof (cases "n < 2")
    case True
    with 1(2) show ?thesis by (simp add: ilog2.simps[of n])
  next
    case False
    then have "0 < n div 2" by simp
    from 1(1)[OF False this] have "2 ^ ilog2 (n div 2) \<le> n div 2" "n div 2 < 2 ^ Suc (ilog2 (n div 2))"
      by simp_all
    then have "2 * 2 ^ ilog2 (n div 2) \<le> n" "n < 2 * 2 ^ Suc (ilog2 (n div 2))"
      by linarith+
    with False show ?thesis by (simp add: ilog2.simps[of n])
  qed
qed

lemma seg_per_queue_bounds:
  assumes "0 < n" "n \<le> tot" "tot < 2 ^ 16" "v = ilog2 (tot div n)"
  shows "2 ^ v * n \<le> tot" "tot < 2 ^ (v + 1) * n" "v < 16"
proof -
  from assms(1,2) have "0 < tot div n" by (simp add: div_greater_zero_iff)
  from ilog2_bounds[OF this] have b: "2 ^ v \<le> tot div n" "tot div n < 2 ^ Suc v"
    by (simp_all add: assms(4))
  from b(1) assms(1) show "2 ^ v * n \<le> tot"
    by (simp add: less_eq_div_iff_mult_less_eq)
  from b(2) assms(1) show "tot < 2 ^ (v + 1) * n"
    by (simp add: div_less_iff_less_mult)
  have "tot div n \<le> tot" by simp
  with b(1) assms(3) have "(2::nat) ^ v < 2 ^ 16" by linarith
  then show "v < 16" by (simp only: power_strict_increasing_iff[of 2] one_less_numeral_iff semiring_norm)
qed

lemma nibble_bound: "v < 16 \<Longrightarrow> bit (v::nat) t \<Longrightarrow> t < 4"
proof -
  assume v: "v < 16" and b: "bit v t"
  from v have "take_bit 4 v = v" by (simp add: take_bit_nat_eq_self)
  with b have "bit (take_bit 4 v) t" by simp
  then show "t < 4" by (simp add: bit_take_bit_iff)
qed

lemma nibble_bit:
  assumes "v < 16" "n < 4"
  shows "bit (push_bit (i * 4) (of_nat v :: u32)) (4 * j + n) \<longleftrightarrow> i = j \<and> j < 8 \<and> bit v n"
proof (cases "i = j")
  case True
  with assms(2) show ?thesis by (auto simp: bit_push_bit_iff bit_of_nat_iff)
next
  case False
  have "\<not> bit (push_bit (i * 4) (of_nat v :: u32)) (4 * j + n)"
  proof
    assume "bit (push_bit (i * 4) (of_nat v :: u32)) (4 * j + n)"
    then have le: "i * 4 \<le> 4 * j + n" and b: "bit v (4 * j + n - i * 4)"
      by (simp_all add: bit_push_bit_iff bit_of_nat_iff)
    from nibble_bound[OF assms(1) b] have "4 * j + n - i * 4 < 4" .
    with le assms(2) False show False by linarith
  qed
  with False show ?thesis by simp
qed

lemma init_queue_fold_seg:
  "fold (init_queue p qm paddr v) xs (lo, up, s) = (lo', up', s') \<Longrightarrow>
     (bit lo' k \<longleftrightarrow> bit lo k \<or>
        (\<exists>i\<in>set xs. bit qm i \<and> i < MACB_LOWER_SEGMENTS_NUM p \<and>
                    bit (push_bit (i * 4) (of_nat v :: u32)) k)) \<and>
     (bit up' k \<longleftrightarrow> bit up k \<or>
        (\<exists>i\<in>set xs. bit qm i \<and> \<not> i < MACB_LOWER_SEGMENTS_NUM p \<and>
                    bit (push_bit ((i - MACB_LOWER_SEGMENTS_NUM p) * 4) (of_nat v :: u32)) k))"
proof (induction xs arbitrary: lo up s)
  case Nil
  then show ?case by simp
next
  case (Cons x xs)
  obtain lo1 up1 s1 where st: "init_queue p qm paddr v x (lo, up, s) = (lo1, up1, s1)"
    by (cases "init_queue p qm paddr v x (lo, up, s)") auto
  from st have lo1: "lo1 = (if bit qm x \<and> x < MACB_LOWER_SEGMENTS_NUM p
                            then lo OR push_bit (x * 4) (of_nat v) else lo)"
    and up1: "up1 = (if bit qm x \<and> \<not> x < MACB_LOWER_SEGMENTS_NUM p
                     then up OR push_bit ((x - MACB_LOWER_SEGMENTS_NUM p) * 4) (of_nat v) else up)"
    by (auto simp: init_queue_def Let_def bit_iff_and_push_bit_not_eq_0 split: if_splits)
  from Cons.prems st have "fold (init_queue p qm paddr v) xs (lo1, up1, s1) = (lo', up', s')"
    by simp
  note ih = Cons.IH[OF this]
  have l: "bit lo1 k \<longleftrightarrow> bit lo k \<or> (bit qm x \<and> x < MACB_LOWER_SEGMENTS_NUM p \<and>
                    bit (push_bit (x * 4) (of_nat v :: u32)) k)"
    unfolding lo1 by (auto simp: bit_or_iff)
  have u: "bit up1 k \<longleftrightarrow> bit up k \<or> (bit qm x \<and> \<not> x < MACB_LOWER_SEGMENTS_NUM p \<and>
                    bit (push_bit ((x - MACB_LOWER_SEGMENTS_NUM p) * 4) (of_nat v :: u32)) k)"
    unfolding up1 by (auto simp: bit_or_iff)
  show ?case
    unfolding ih[THEN conjunct1] ih[THEN conjunct2] l u by auto
qed

lemma init_multi_queues_seg:
  assumes "gmac_init_multi_queues p s = (r, s')"
    and "n = gmac_num_queues p (gmac_queue_mask s)"
    and "v = ilog2 (MACB_SEGMENTS_NUM p div n)"
  shows "allocate_segments_equally (config s) \<Longrightarrow>
      bit (regs s' SEG_ALLOC_LOWER) k \<longleftrightarrow>
        (\<exists>i. 1 \<le> i \<and> i < n \<and> bit (gmac_queue_mask s) i \<and> i < MACB_LOWER_SEGMENTS_NUM p \<and>
             bit (push_bit (i * 4) (of_nat v :: u32)) k)"
    and "allocate_segments_equally (config s) \<Longrightarrow>
      bit (regs s' SEG_ALLOC_UPPER) k \<longleftrightarrow>
        (\<exists>i. 1 \<le> i \<and> i < n \<and> bit (gmac_queue_mask s) i \<and> \<not> i < MACB_LOWER_SEGMENTS_NUM p \<and>
             bit (push_bit ((i - MACB_LOWER_SEGMENTS_NUM p) * 4) (of_nat v :: u32)) k)"
    and "\<not> allocate_segments_equally (config s) \<Longrightarrow>
      regs s' SEG_ALLOC_LOWER = regs s SEG_ALLOC_LOWER \<and>
      regs s' SEG_ALLOC_UPPER = regs s SEG_ALLOC_UPPER"
proof -
  from assms(1) obtain lo up s1 s4 where
    s1: "s1 = (if disable_queues_at_init (config s) then disable_all_queues p s else s)"
    and f: "fold (init_queue p (gmac_queue_mask s) (dummy_desc_dma s)
             (ilog2 (MACB_SEGMENTS_NUM p div gmac_num_queues p (gmac_queue_mask s))))
        [1..<gmac_num_queues p (gmac_queue_mask s)]
        (0, 0, emit (Flush_dcache_range (unat (dummy_desc_dma s))
                 (unat (dummy_desc_dma s) + ALIGN MACB_TX_DUMMY_DMA_DESC_SIZE (PKTALIGN p)))
               (s1\<lparr>dummy_desc := \<lparr>addr = 0, ctrl = BIT_TX_USED p\<rparr>\<rparr>)) = (lo, up, s4)"
    and s': "s' = (if allocate_segments_equally (config s)
           then macb_writel SEG_ALLOC_UPPER up (macb_writel SEG_ALLOC_LOWER lo s4) else s4)"
    by (rule init_multi_queues_unfold)
  note f' = f[folded assms(2), folded assms(3)]
  have set: "\<And>P. (\<exists>i\<in>set [1..<n]. P i) \<longleftrightarrow> (\<exists>i. 1 \<le> i \<and> i < n \<and> P i)"
    by auto
  {
    assume a: "allocate_segments_equally (config s)"
    then have "regs s' SEG_ALLOC_LOWER = lo" "regs s' SEG_ALLOC_UPPER = up"
      by (simp_all add: s')
    then show "bit (regs s' SEG_ALLOC_LOWER) k \<longleftrightarrow>
        (\<exists>i. 1 \<le> i \<and> i < n \<and> bit (gmac_queue_mask s) i \<and> i < MACB_LOWER_SEGMENTS_NUM p \<and>
             bit (push_bit (i * 4) (of_nat v :: u32)) k)"
      and "bit (regs s' SEG_ALLOC_UPPER) k \<longleftrightarrow>
        (\<exists>i. 1 \<le> i \<and> i < n \<and> bit (gmac_queue_mask s) i \<and> \<not> i < MACB_LOWER_SEGMENTS_NUM p \<and>
             bit (push_bit ((i - MACB_LOWER_SEGMENTS_NUM p) * 4) (of_nat v :: u32)) k)"
      using init_queue_fold_seg[OF f', of k] unfolding set by simp_all
  }
  {
    assume a: "\<not> allocate_segments_equally (config s)"
    have "regs s1 SEG_ALLOC_LOWER = regs s SEG_ALLOC_LOWER"
      "regs s1 SEG_ALLOC_UPPER = regs s SEG_ALLOC_UPPER"
      unfolding s1 by (simp_all add: disable_all_queues_regs)
    with init_queue_fold_regs[OF f] a
    show "regs s' SEG_ALLOC_LOWER = regs s SEG_ALLOC_LOWER \<and>
      regs s' SEG_ALLOC_UPPER = regs s SEG_ALLOC_UPPER"
      by (simp add: s')
  }
qed

lemma nibble_eqI:
  assumes "v < 16"
    and "\<And>n. n < 4 \<Longrightarrow> bit (w :: u32) (4 * j + n) \<longleftrightarrow> c \<and> bit v n"
  shows "take_bit 4 (drop_bit (4 * j) w) = (if c then of_nat v else 0)"
proof (rule bit_eqI)
  fix n
  show "bit (take_bit 4 (drop_bit (4 * j) w)) n \<longleftrightarrow> bit (if c then of_nat v else 0 :: u32) n"
  proof (cases "n < 4")
    case True
    with assms(2)[OF True] show ?thesis
      by (simp add: bit_take_bit_iff bit_drop_bit_eq bit_of_nat_iff)
  next
    case False
    with nibble_bound[OF assms(1), of n] show ?thesis
      by (auto simp: bit_take_bit_iff bit_of_nat_iff)
  qed
qed

lemma init_multi_queues_nibble:
  assumes "gmac_init_multi_queues p s = (r, s')"
    and "n = gmac_num_queues p (gmac_queue_mask s)"
    and "v = ilog2 (MACB_SEGMENTS_NUM p div n)"
    and "allocate_segments_equally (config s)" and "v < 16" and "j < 8"
  shows "take_bit 4 (drop_bit (4 * j) (regs s' SEG_ALLOC_LOWER)) =
           (if 1 \<le> j \<and> j < n \<and> bit (gmac_queue_mask s) j \<and> j < MACB_LOWER_SEGMENTS_NUM p
            then of_nat v else 0)"
    and "take_bit 4 (drop_bit (4 * j) (regs s' SEG_ALLOC_UPPER)) =
           (if 1 \<le> j + MACB_LOWER_SEGMENTS_NUM p \<and> j + MACB_LOWER_SEGMENTS_NUM p < n \<and>
               bit (gmac_queue_mask s) (j + MACB_LOWER_SEGMENTS_NUM p)
            then of_nat v else 0)"
proof -
  note seg = init_multi_queues_seg[OF assms(1,2,3)]
  show "take_bit 4 (drop_bit (4 * j) (regs s' SEG_ALLOC_LOWER)) =
           (if 1 \<le> j \<and> j < n \<and> bit (gmac_queue_mask s) j \<and> j < MACB_LOWER_SEGMENTS_NUM p
            then of_nat v else 0)"
  proof (rule nibble_eqI[OF assms(5)])
    fix k :: nat
    assume k: "k < 4"
    show "bit (regs s' SEG_ALLOC_LOWER) (4 * j + k) \<longleftrightarrow>
      (1 \<le> j \<and> j < n \<and> bit (gmac_queue_mask s) j \<and> j < MACB_LOWER_SEGMENTS_NUM p) \<and> bit v k"
      unfolding seg(1)[OF assms(4)] nibble_bit[OF assms(5) k] using assms(6) by auto
  qed
  show "take_bit 4 (drop_bit (4 * j) (regs s' SEG_ALLOC_UPPER)) =
           (if 1 \<le> j + MACB_LOWER_SEGMENTS_NUM p \<and> j + MACB_LOWER_SEGMENTS_NUM p < n \<and>
               bit (gmac_queue_mask s) (j + MACB_LOWER_SEGMENTS_NUM p)
            then of_nat v else 0)"
  proof (rule nibble_eqI[OF assms(5)])
    fix k :: nat
    assume k: "k < 4"
    have "(\<exists>i. 1 \<le> i \<and> i < n \<and> bit (gmac_queue_mask s) i \<and> \<not> i < MACB_LOWER_SEGMENTS_NUM p \<and>
             (i - MACB_LOWER_SEGMENTS_NUM p = j \<and> j < 8 \<and> bit v k)) \<longleftrightarrow>
       (1 \<le> j + MACB_LOWER_SEGMENTS_NUM p \<and> j + MACB_LOWER_SEGMENTS_NUM p < n \<and>
               bit (gmac_queue_mask s) (j + MACB_LOWER_SEGMENTS_NUM p)) \<and> bit v k"
      (is "?L \<longleftrightarrow> ?R")
    proof
      assume ?L
      then obtain i where i: "1 \<le> i" "i < n" "bit (gmac_queue_mask s) i"
        "\<not> i < MACB_LOWER_SEGMENTS_NUM p" "i - MACB_LOWER_SEGMENTS_NUM p = j" "bit v k"
        by blast
      from i(4,5) have "i = j + MACB_LOWER_SEGMENTS_NUM p" by simp
      with i show ?R by simp
    next
      assume ?R
      with assms(6) show ?L
        by (intro exI[of _ "j + MACB_LOWER_SEGMENTS_NUM p"]) simp
    qed
    then show "bit (regs s' SEG_ALLOC_UPPER) (4 * j + k) \<longleftrightarrow>
      (1 \<le> j + MACB_LOWER_SEGMENTS_NUM p \<and> j + MACB_LOWER_SEGMENTS_NUM p < n \<and>
               bit (gmac_queue_mask s) (j + MACB_LOWER_SEGMENTS_NUM p)) \<and> bit v k"
      unfolding seg(2)[OF assms(4)] nibble_bit[OF assms(5) k] .
  qed
qed

lemma cadence_queues:
  "MACB_MAX_QUEUES cadence = 8" "MACB_SEGMENTS_NUM cadence = 16"
  "MACB_LOWER_SEGMENTS_NUM cadence = 8" "BIT_TX_USED cadence = 0x80000000"
  by (simp_all add: cadence_def)

lemma queue_dev_fields:
  "gmac_queue_mask (queue_dev a) = 0xb" "config (queue_dev a) =
     default_gem_config\<lparr>queue_mask := 0x1f, allocate_segments_equally := a\<rparr>"
  "dummy_desc_dma (queue_dev a) = 0x4000" "regs (queue_dev a) r = (if r = DCFG6 then 0xa else 0)"
  by (simp_all add: gmac_queue_mask_def queue_dev_def dev0_def default_gem_config_def zero_regs_def)

lemma hailo_dev_fields:
  "gmac_queue_mask hailo_dev = 3" "config hailo_dev = hailo15_config"
  "dummy_desc_dma hailo_dev = 0x4000" "regs hailo_dev r = (if r = DCFG6 then 0xa else 0)"
  by (simp_all add: gmac_queue_mask_def hailo_dev_def dev0_def hailo15_config_def zero_regs_def)

lemma upt_1_8: "[1..<8] = [1, 2, 3, 4, 5, 6, 7 :: nat]"
  by (simp add: upt_rec)

lemma num_queues_bit:
  "gmac_num_queues p qm = 1 + length (filter (bit qm) [1..<MACB_MAX_QUEUES p])"
  unfolding gmac_num_queues_def bit_iff_and_push_bit_not_eq_0 ..

lemma num_queues_values:
  "gmac_num_queues cadence 0xb = 3" "gmac_num_queues cadence 3 = 2" "gmac_num_queues cadence 1 = 1"
  unfolding num_queues_bit cadence_queues upt_1_8 by simp_all

lemma ilog2_values: "ilog2 5 = 2" "ilog2 8 = 3"
  by (simp_all add: ilog2.simps)

lemma init_pair:
  "gmac_init_multi_queues p s =
     (fst (gmac_init_multi_queues p s), snd (gmac_init_multi_queues p s))"
  by simp

theorem init_points_masked_queues_at_dummy_witness:
  "bit (gmac_queue_mask (queue_dev True)) 1
   \<and> 1 < gmac_num_queues cadence (gmac_queue_mask (queue_dev True))
   \<and> \<not> bit (gmac_queue_mask (queue_dev True)) 2
   \<and> dummy_desc (snd (gmac_init_multi_queues cadence (queue_dev True))) =
        \<lparr>addr = 0, ctrl = 0x80000000\<rparr>
   \<and> regs (snd (gmac_init_multi_queues cadence (queue_dev True))) (TBQP 0) = 0x4000
   \<and> regs (snd (gmac_init_multi_queues cadence (queue_dev True))) (RBQP 0) = 0x4000
   \<and> regs (snd (gmac_init_multi_queues cadence (queue_dev True))) (TBQP 1) = 0
   \<and> regs (snd (gmac_init_multi_queues cadence (queue_dev True))) (RBQP 1) = 0"
  using init_points_masked_queues_at_dummy[where p = cadence and s = "queue_dev True"
      and k = 0 and i = 1 and j = 2, OF init_pair]
  by (simp add: queue_dev_fields num_queues_values cadence_queues lower_32_bits_def
      default_gem_config_def)

text \<open>
  Claim C5 as stated fails: with the queues 1 and 3 reported and the queues 0 to 4
  allowed, queue 2 is outside the mask and its base-address registers are not pointed at
  the dummy descriptor, which does carry \<^verbatim>\<open>TX_USED\<close>; under the Hailo-15 configuration
  they hold the value 1 written by the loop of lines 976 to 982.
\<close>

theorem inactive_queue_not_at_dummy_counterexample:
  "\<not> bit (gmac_queue_mask (queue_dev True)) 2
   \<and> ctrl (dummy_desc (snd (gmac_init_multi_queues cadence (queue_dev True)))) = BIT_TX_USED cadence
   \<and> regs (snd (gmac_init_multi_queues cadence (queue_dev True))) (TBQP 1)
        \<noteq> lower_32_bits (dummy_desc_dma (queue_dev True))
   \<and> regs (snd (gmac_init_multi_queues cadence (queue_dev True))) (RBQP 1)
        \<noteq> lower_32_bits (dummy_desc_dma (queue_dev True))
   \<and> \<not> bit (gmac_queue_mask hailo_dev) 2
   \<and> regs (snd (gmac_init_multi_queues cadence hailo_dev)) (TBQP 1) = 1
   \<and> regs (snd (gmac_init_multi_queues cadence hailo_dev)) (RBQP 1) = 1
   \<and> lower_32_bits (dummy_desc_dma hailo_dev) = 0x4000"
proof -
  note q = init_multi_queues_regs[where p = cadence and s = "queue_dev True", OF init_pair]
  note h = init_multi_queues_regs[where p = cadence and s = hailo_dev, OF init_pair]
  have e: "\<not> (\<exists>i. 1 \<le> i \<and> i < 3 \<and> bit (11 :: u32) i \<and> (1::nat) = i - 1)"
  proof
    assume "\<exists>i. 1 \<le> i \<and> i < 3 \<and> bit (11 :: u32) i \<and> (1::nat) = i - 1"
    then obtain i where i: "1 \<le> i" "bit (11 :: u32) i" "(1::nat) = i - 1" by blast
    from i(1,3) have "i = 2" by linarith
    with i(2) show False by simp
  qed
  have e': "\<not> (\<exists>i. 1 \<le> i \<and> i < 2 \<and> bit (3 :: u32) i \<and> (1::nat) = i - 1)"
  proof
    assume "\<exists>i. 1 \<le> i \<and> i < 2 \<and> bit (3 :: u32) i \<and> (1::nat) = i - 1"
    then obtain i where i: "1 \<le> i" "bit (3 :: u32) i" "(1::nat) = i - 1" by blast
    from i(1,3) have "i = 2" by linarith
    with i(2) show False by simp
  qed
  show ?thesis
    unfolding q(1) q(2) q(3) h(2) h(3)
    using e e' by (simp add: queue_dev_fields hailo_dev_fields num_queues_values cadence_queues
        lower_32_bits_def default_gem_config_def hailo15_config_def)
qed

text \<open>
  Claim C6, amended. Let \<open>n\<close> be the number of queues in the mask and
  \<open>v = ilog2 (MACB_SEGMENTS_NUM / n)\<close>, on a platform whose lower register holds at most
  eight queues, the upper one the rest, and with at least as many segments as queues and
  fewer than \<open>2 ^ 16\<close>. Then \<open>v\<close> is rounded down (\<open>2 ^ v * n\<close> does not exceed the number of
  segments, \<open>2 ^ (v + 1) * n\<close> does) and fits a nibble. When the configuration asks for
  equal allocation, every queue \<open>i \<ge> 1\<close> in the mask with \<open>i < n\<close> has the nibble \<open>v\<close> at
  position \<open>i\<close> of \<^verbatim>\<open>SEG_ALLOC_LOWER\<close> if \<open>i\<close> is below \<^verbatim>\<open>MACB_LOWER_SEGMENTS_NUM\<close>, and at
  position \<open>i - MACB_LOWER_SEGMENTS_NUM\<close> of \<^verbatim>\<open>SEG_ALLOC_UPPER\<close> otherwise. When it does
  not, neither register is written.
\<close>

theorem seg_alloc_nibbles:
  assumes "gmac_init_multi_queues p s = (r, s')"
    and "n = gmac_num_queues p (gmac_queue_mask s)"
    and "v = ilog2 (MACB_SEGMENTS_NUM p div n)"
    and "MACB_LOWER_SEGMENTS_NUM p \<le> 8"
    and "MACB_MAX_QUEUES p \<le> MACB_LOWER_SEGMENTS_NUM p + 8"
    and "0 < MACB_SEGMENTS_NUM p"
    and "MACB_MAX_QUEUES p \<le> MACB_SEGMENTS_NUM p"
    and "MACB_SEGMENTS_NUM p < 2 ^ 16"
  shows "2 ^ v * n \<le> MACB_SEGMENTS_NUM p \<and> MACB_SEGMENTS_NUM p < 2 ^ (v + 1) * n \<and> v < 16
    \<and> (allocate_segments_equally (config s) \<and> 1 \<le> i \<and> i < n \<and> bit (gmac_queue_mask s) i \<longrightarrow>
         (if i < MACB_LOWER_SEGMENTS_NUM p
          then take_bit 4 (drop_bit (4 * i) (regs s' SEG_ALLOC_LOWER)) = of_nat v
          else take_bit 4 (drop_bit (4 * (i - MACB_LOWER_SEGMENTS_NUM p))
                 (regs s' SEG_ALLOC_UPPER)) = of_nat v))
    \<and> (\<not> allocate_segments_equally (config s) \<longrightarrow>
         regs s' SEG_ALLOC_LOWER = regs s SEG_ALLOC_LOWER \<and>
         regs s' SEG_ALLOC_UPPER = regs s SEG_ALLOC_UPPER)"
proof -
  have n0: "0 < n" by (simp add: assms(2) gmac_num_queues_def)
  have nmax: "n \<le> max 1 (MACB_MAX_QUEUES p)"
    unfolding assms(2) by (rule num_queues_le)
  with assms(6,7) have ntot: "n \<le> MACB_SEGMENTS_NUM p" by simp
  note b = seg_per_queue_bounds[OF n0 ntot assms(8) assms(3)]
  have nib: "allocate_segments_equally (config s) \<and> 1 \<le> i \<and> i < n \<and> bit (gmac_queue_mask s) i \<longrightarrow>
         (if i < MACB_LOWER_SEGMENTS_NUM p
          then take_bit 4 (drop_bit (4 * i) (regs s' SEG_ALLOC_LOWER)) = of_nat v
          else take_bit 4 (drop_bit (4 * (i - MACB_LOWER_SEGMENTS_NUM p))
                 (regs s' SEG_ALLOC_UPPER)) = of_nat v)"
  proof
    assume a: "allocate_segments_equally (config s) \<and> 1 \<le> i \<and> i < n \<and> bit (gmac_queue_mask s) i"
    then have al: "allocate_segments_equally (config s)" and i: "1 \<le> i" "i < n"
      "bit (gmac_queue_mask s) i"
      by simp_all
    from i nmax have imax: "i < MACB_MAX_QUEUES p" by simp
    show "if i < MACB_LOWER_SEGMENTS_NUM p
          then take_bit 4 (drop_bit (4 * i) (regs s' SEG_ALLOC_LOWER)) = of_nat v
          else take_bit 4 (drop_bit (4 * (i - MACB_LOWER_SEGMENTS_NUM p))
                 (regs s' SEG_ALLOC_UPPER)) = of_nat v"
    proof (cases "i < MACB_LOWER_SEGMENTS_NUM p")
      case True
      with assms(4) have "i < 8" by simp
      from init_multi_queues_nibble(1)[OF assms(1,2,3) al b(3) this] True i
      show ?thesis by simp
    next
      case False
      with imax assms(5) have j: "i - MACB_LOWER_SEGMENTS_NUM p < 8" by simp
      from False have "i - MACB_LOWER_SEGMENTS_NUM p + MACB_LOWER_SEGMENTS_NUM p = i" by simp
      with init_multi_queues_nibble(2)[OF assms(1,2,3) al b(3) j] False i
      show ?thesis by simp
    qed
  qed
  from b nib init_multi_queues_seg(3)[OF assms(1,2,3)] show ?thesis by blast
qed

theorem seg_alloc_nibbles_witness:
  "allocate_segments_equally (config (queue_dev True))
   \<and> bit (gmac_queue_mask (queue_dev True)) 1
   \<and> gmac_num_queues cadence (gmac_queue_mask (queue_dev True)) = 3
   \<and> ilog2 (MACB_SEGMENTS_NUM cadence div 3) = 2
   \<and> take_bit 4 (drop_bit 4 (regs (snd (gmac_init_multi_queues cadence (queue_dev True)))
        SEG_ALLOC_LOWER)) = 2
   \<and> \<not> allocate_segments_equally (config (queue_dev False))
   \<and> regs (snd (gmac_init_multi_queues cadence (queue_dev False))) SEG_ALLOC_LOWER = 0
   \<and> regs (snd (gmac_init_multi_queues cadence (queue_dev False))) SEG_ALLOC_UPPER = 0"
  using seg_alloc_nibbles[where p = cadence and s = "queue_dev True" and i = 1,
      OF init_pair refl refl]
    seg_alloc_nibbles[where p = cadence and s = "queue_dev False" and i = 1,
      OF init_pair refl refl]
  by (simp add: queue_dev_fields num_queues_values cadence_queues ilog2_values
      default_gem_config_def)

text \<open>
  Claim C6 as stated fails: queue 0 is in the mask and its nibble is 0 where the claim
  has 2; and without \<^verbatim>\<open>allocate_segments_equally\<close> the nibble of queue 1 is 0 as well,
  the registers not being written.
\<close>

theorem queue_zero_nibble_counterexample:
  "bit (gmac_queue_mask (queue_dev True)) 0
   \<and> allocate_segments_equally (config (queue_dev True))
   \<and> ilog2 (MACB_SEGMENTS_NUM cadence div
        gmac_num_queues cadence (gmac_queue_mask (queue_dev True))) = 2
   \<and> take_bit 4 (drop_bit (4 * 0) (regs (snd (gmac_init_multi_queues cadence (queue_dev True)))
        SEG_ALLOC_LOWER)) = 0
   \<and> bit (gmac_queue_mask (queue_dev False)) 1
   \<and> take_bit 4 (drop_bit (4 * 1) (regs (snd (gmac_init_multi_queues cadence (queue_dev False)))
        SEG_ALLOC_LOWER)) = 0"
proof -
  have v: "(2::nat) < 16" by simp
  from init_multi_queues_nibble(1)[where p = cadence and s = "queue_dev True" and j = 0,
      OF init_pair refl refl]
  have a: "take_bit 4 (drop_bit (4 * 0) (regs (snd (gmac_init_multi_queues cadence (queue_dev True)))
        SEG_ALLOC_LOWER)) = 0"
    by (simp add: queue_dev_fields num_queues_values cadence_queues ilog2_values
        default_gem_config_def)
  from init_multi_queues_seg(3)[where p = cadence and s = "queue_dev False", OF init_pair refl refl]
  have b: "regs (snd (gmac_init_multi_queues cadence (queue_dev False))) SEG_ALLOC_LOWER = 0"
    by (simp add: queue_dev_fields default_gem_config_def)
  show ?thesis
    unfolding b using a
    by (simp add: queue_dev_fields num_queues_values cadence_queues ilog2_values
        default_gem_config_def)
qed

end
